theory Spec2Isabelle
  imports Complex_Main "HOL-Library.Word" "HOL-Library.Signed_Division"
begin

section \<open>Data model of the hardware sensor ring buffer\<close>

text \<open>
  The class \<open>HardwareSensorAbstract<T>\<close> of \<open>hardwareSensorAbstract.hpp\<close> is embedded
  as a record of its members and one function per method. The conventions:
  \<^item> a C++ \<open>int\<close> member is a HOL integer; where a sum of the source can leave the
    range of \<open>int\<close> (the logical indices of \<open>getRaws\<close>, the counter \<open>index\<close>), the
    overflow, which C++ leaves undefined, is the error \<open>INT_OVERFLOW\<close>; an \<open>unsigned\<close> argument is a \<open>32 word\<close>, converted to
    \<open>int\<close> by \<open>sint\<close> and used as an array index by \<open>uint\<close>; \<open>size_t\<close> is a \<open>64 word\<close>;
  \<^item> \<open>/\<close> and \<open>%\<close> on \<open>int\<close> are the truncating \<open>sdiv\<close> and \<open>smod\<close>;
  \<^item> a \<open>double\<close> is a real number: the buffer only compares timestamps, with each
    other and with constants, and adds periods to them;
  \<^item> a reading of type \<open>T\<close> is a record of what \<open>extractRawTimestamp\<close> and
    \<open>extractRawArrival\<close> read from it, and the rest of its payload;
  \<^item> a method that throws returns \<open>Inl\<close> of the error and the state at the throw;
    a method that returns gives \<open>Inr\<close> of the state and the value;
  \<^item> an access to \<open>buffer\<close> outside its bounds is the error \<open>BAD_INDEX\<close>.
\<close>

record 'a raw =
  timestamp :: real
  arrival :: real
  content :: 'a

text \<open>\<open>RawInfo\<close> and \<open>RawInfos\<close>; the fields of \<open>RawInfo\<close> carry the prefix \<open>ri_\<close>.\<close>

record raw_info =
  ri_id :: "32 word"
  ri_timestamp :: real
  ri_arrival :: real

definition RawInfo :: "32 word \<Rightarrow> real \<Rightarrow> real \<Rightarrow> raw_info" where
  "RawInfo i t a = \<lparr>ri_id = i, ri_timestamp = t, ri_arrival = a\<rparr>"

record raw_infos =
  available :: "raw_info list"
  next_info :: raw_info
  process_time :: real
  integrate_all :: bool

text \<open>
  \<open>GENERIC_ERROR\<close> and \<open>BUFFER_OVERFLOW\<close> are the two identifiers of \<open>RtslamException\<close>
  that the class throws with \<open>JFR_ERROR\<close>; \<open>ASSERTION_FAILED\<close> is a failed \<open>JFR_ASSERT\<close>;
  \<open>BAD_INDEX\<close> and \<open>INT_OVERFLOW\<close> stand for what C++ leaves undefined.
\<close>

datatype error = GENERIC_ERROR | BUFFER_OVERFLOW | ASSERTION_FAILED | BAD_INDEX | INT_OVERFLOW

record 'a sensor =
  write_pos :: int
  read_pos :: int
  buffer_full :: bool
  read_pos_used :: bool
  index :: int
  data_count :: int
  last_sent_pos :: int
  no_more_data :: bool
  data_period :: real
  arrival_delay :: real
  bufferSize :: int
  buffer :: "'a raw list"

type_synonym ('a, 'r) result = "(error \<times> 'a sensor) + ('a sensor \<times> 'r)"

definition INT_MAX :: int where
  "INT_MAX = 2147483647"

text \<open>The values of the type \<open>int\<close>.\<close>

definition int_ok :: "int \<Rightarrow> bool" where
  "int_ok x = (- INT_MAX - 1 \<le> x \<and> x \<le> INT_MAX)"

text \<open>\<open>buffer(i)\<close> and \<open>buffer[i]\<close>, with the bounds check written out.\<close>

definition slot :: "'a raw list \<Rightarrow> int \<Rightarrow> error + 'a raw" where
  "slot buf i = (if 0 \<le> i \<and> i < int (length buf) then Inr (buf ! nat i) else Inl BAD_INDEX)"

text \<open>
  The constructor. The members it leaves uninitialised (\<open>last_sent_pos\<close>,
  \<open>data_period\<close>, \<open>arrival_delay\<close>) and the default-constructed reading are parameters.
\<close>

definition HardwareSensorAbstract ::
  "32 word \<Rightarrow> 'a raw \<Rightarrow> int \<Rightarrow> real \<Rightarrow> real \<Rightarrow> 'a sensor" where
  "HardwareSensorAbstract n raw0 lsp dp ad =
     \<lparr>write_pos = 0, read_pos = 0, buffer_full = False, read_pos_used = False,
      index = - 1, data_count = 0, last_sent_pos = lsp, no_more_data = False,
      data_period = dp, arrival_delay = ad,
      bufferSize = sint n, buffer = replicate (unat n) raw0\<rparr>"

section \<open>Occupancy tracker\<close>

definition isFull :: "'a sensor \<Rightarrow> bool" where
  "isFull s = (read_pos s = write_pos s \<and> buffer_full s)"

definition getFirstUnreadPos :: "'a sensor \<Rightarrow> int" where
  "getFirstUnreadPos s =
     (if \<not> read_pos_used s then read_pos s
      else if read_pos s \<noteq> bufferSize s - 1 then read_pos s + 1 else 0)"

definition getLastUnreadPos :: "'a sensor \<Rightarrow> int" where
  "getLastUnreadPos s = (if write_pos s = 0 then bufferSize s - 1 else write_pos s - 1)"

definition isEmpty :: "'a sensor \<Rightarrow> bool" where
  "isEmpty s = (getFirstUnreadPos s = write_pos s \<and> \<not> buffer_full s)"

definition getWritePos :: "'a sensor \<Rightarrow> ('a, int) result" where
  "getWritePos s = (if isFull s then Inl (GENERIC_ERROR, s) else Inr (s, write_pos s))"

definition incWritePos :: "'a sensor \<Rightarrow> 'a sensor" where
  "incWritePos s =
     (let w1 = write_pos s + 1;
          w2 = (if w1 \<ge> bufferSize s then 0 else w1);
          bf = (if w2 = read_pos s then True else buffer_full s)
      in s\<lparr>write_pos := w2, buffer_full := bf, data_count := data_count s + 1\<rparr>)"

text \<open>release until id, excluding id\<close>

definition releaseUntil :: "'a sensor \<Rightarrow> 32 word \<Rightarrow> 'a sensor" where
  "releaseUntil s id' =
     (let s1 = s\<lparr>read_pos := sint id', read_pos_used := True\<rparr>
      in if getFirstUnreadPos s1 = write_pos s1 then s1\<lparr>buffer_full := False\<rparr> else s1)"

text \<open>release until id, including id\<close>

definition release :: "'a sensor \<Rightarrow> 32 word \<Rightarrow> 'a sensor" where
  "release s id' =
     (let r = (if id' \<noteq> word_of_int (bufferSize s - 1) then sint (id' + 1) else 0);
          bf = (if write_pos s = r then False else buffer_full s)
      in s\<lparr>read_pos := r, buffer_full := bf, read_pos_used := False\<rparr>)"

section \<open>Retrieval engine: single readings\<close>

definition observeRaw :: "'a sensor \<Rightarrow> 32 word \<Rightarrow> ('a, 'a raw) result" where
  "observeRaw s id' =
     (case slot (buffer s) (uint id') of
        Inl e \<Rightarrow> Inl (e, s)
      | Inr x \<Rightarrow> Inr (s, x))"

definition getRaw :: "'a sensor \<Rightarrow> 32 word \<Rightarrow> ('a, 'a raw) result" where
  "getRaw s id' =
     (let s1 = releaseUntil s id'
      in case slot (buffer s1) (uint id') of
           Inl e \<Rightarrow> Inl (e, s1)
         | Inr x \<Rightarrow>
             (let s2 = s1\<lparr>last_sent_pos := sint id'\<rparr>
              in if int_ok (index s2 + 1) then Inr (s2\<lparr>index := index s2 + 1\<rparr>, x)
                 else Inl (INT_OVERFLOW, s2)))"

definition getNextRawInfo :: "'a sensor \<Rightarrow> raw_info \<Rightarrow> ('a, int \<times> raw_info) result" where
  "getNextRawInfo s info =
     (if \<not> isEmpty s then
        (let first = getFirstUnreadPos s
         in case slot (buffer s) first of
              Inl e \<Rightarrow> Inl (e, s)
            | Inr x \<Rightarrow> Inr (s, 0, RawInfo (word_of_int first) (timestamp x) 0))
      else if no_more_data s then Inr (s, - 2, info) else Inr (s, - 1, info))"

text \<open>
  The two \<open>for\<close> loops of \<open>getUnreadRawInfos\<close> push one \<open>RawInfo\<close> per position, in
  order; \<open>raw_infos_of\<close> is that traversal over the list of positions.
\<close>

fun raw_infos_of :: "'a raw list \<Rightarrow> int list \<Rightarrow> error + raw_info list" where
  "raw_infos_of buf [] = Inr []"
| "raw_infos_of buf (pos # ps) =
     (case slot buf pos of
        Inl e \<Rightarrow> Inl e
      | Inr x \<Rightarrow>
          (case raw_infos_of buf ps of
             Inl e \<Rightarrow> Inl e
           | Inr is \<Rightarrow> Inr (RawInfo (word_of_int pos) (timestamp x) (arrival x) # is)))"

text \<open>
  The positions that the two loops visit: from the first unread slot to the last one,
  in two runs when the walk passes the end of the buffer.
\<close>

definition unread_positions :: "'a sensor \<Rightarrow> int list" where
  "unread_positions s =
     (let first = getFirstUnreadPos s; last = getLastUnreadPos s;
          first_stop = (if first \<le> last then last else bufferSize s - 1);
          second_stop = (if first \<le> last then - 1 else last)
      in [first..first_stop] @ [0..second_stop])"

text \<open>\<open>getLastTimestamp()\<close> is pure virtual: its value is the argument \<open>last_ts\<close>.\<close>

definition getUnreadRawInfos ::
  "'a sensor \<Rightarrow> real \<Rightarrow> raw_infos \<Rightarrow> ('a, int \<times> raw_infos) result" where
  "getUnreadRawInfos s last_ts infos =
     (let av = (if \<not> isEmpty s then raw_infos_of (buffer s) (unread_positions s) else Inr [])
      in case av of
           Inl e \<Rightarrow> Inl (e, s)
         | Inr avail \<Rightarrow>
             (let next_date = last_ts + data_period s;
                  infos' = infos\<lparr>available := avail,
                     next_info := RawInfo 0 next_date (next_date + arrival_delay s),
                     process_time := 0\<rparr>
              in if length avail = 0
                 then (if no_more_data s then Inr (s, - 2, infos') else Inr (s, - 1, infos'))
                 else Inr (s, 0, infos')))"

text \<open>The status code of a call that returned, and the state a call leaves.\<close>

definition status_of :: "('a, int \<times> 'r) result \<Rightarrow> int option" where
  "status_of r = (case r of Inl e \<Rightarrow> None | Inr (s, code, v) \<Rightarrow> Some code)"

definition state_of :: "('a, 'r) result \<Rightarrow> 'a sensor" where
  "state_of r = (case r of Inl (e, s) \<Rightarrow> s | Inr (s, v) \<Rightarrow> s)"

section \<open>Producer side\<close>

text \<open>
  Modelled from the spec: the drivers that fill the ring are not part of the sources at
  hand. A driver pushes a reading through the write primitives: it asks for the write
  position (which throws when the buffer is full), stores the reading there and
  advances the write position.
\<close>

definition push :: "'a sensor \<Rightarrow> 'a raw \<Rightarrow> ('a, unit) result" where
  "push s x =
     (case getWritePos s of
        Inl e \<Rightarrow> Inl e
      | Inr (s1, pos) \<Rightarrow>
          (if 0 \<le> pos \<and> pos < int (length (buffer s1))
           then Inr (incWritePos (s1\<lparr>buffer := (buffer s1)[nat pos := x]\<rparr>), ())
           else Inl (BAD_INDEX, s1)))"

text \<open>Pushing a list of readings, oldest first, stopping at the first push that throws.\<close>

fun push_all :: "'a sensor \<Rightarrow> 'a raw list \<Rightarrow> 'a sensor" where
  "push_all s [] = s"
| "push_all s (x # xs) =
     (case push s x of
        Inl (e, s1) \<Rightarrow> s1
      | Inr (s1, u) \<Rightarrow> push_all s1 xs)"

text \<open>
  \<open>HardwareSensorProprioAbstract::initData\<close>: every slot is resized and its timestamp
  cell \<open>data(0)\<close> is set to \<open>-99\<close>. What \<open>resize\<close> leaves in the payload is the
  argument \<open>resized\<close>.
\<close>

definition initData :: "('a \<Rightarrow> 'a) \<Rightarrow> 'a sensor \<Rightarrow> 'a sensor" where
  "initData resized s =
     s\<lparr>buffer :=
         fold (\<lambda>i b. b[i := (b ! i)\<lparr>timestamp := - 99, content := resized (content (b ! i))\<rparr>])
           [0..<nat (bufferSize s)] (buffer s)\<rparr>"

text \<open>
  A buffer pre-loaded with the readings \<open>xs\<close>: constructed, marked by \<open>initData\<close>, and
  filled by one push per reading.
\<close>

definition preloaded ::
  "32 word \<Rightarrow> 'a raw \<Rightarrow> ('a \<Rightarrow> 'a) \<Rightarrow> int \<Rightarrow> real \<Rightarrow> real \<Rightarrow> 'a raw list \<Rightarrow> 'a sensor" where
  "preloaded n raw0 resized lsp dp ad xs =
     push_all (initData resized (HardwareSensorAbstract n raw0 lsp dp ad)) xs"

section \<open>Retrieval engine: ranges by timestamp\<close>

text \<open>
  The \<open>while\<close> loop of \<open>getRaws\<close>, used twice: it looks in \<open>[i_left, i_right]\<close> for the
  first logical index whose slot has a timestamp at or after \<open>t\<close>. The loop runs while
  \<open>i_left != i_right\<close>; \<open>None\<close> is a loop that never leaves. The bounds check of
  \<open>buffer(i)\<close> is written in place.
\<close>

partial_function (option) dichotomy ::
  "'a raw list \<Rightarrow> int \<Rightarrow> real \<Rightarrow> int \<Rightarrow> int \<Rightarrow> (error + int) option" where
  "dichotomy buf n t i_left i_right =
     (if i_left \<noteq> i_right then
        (if \<not> int_ok (i_left + i_right) then Some (Inl INT_OVERFLOW)
         else
           (let j = (i_left + i_right) sdiv 2; i = j smod n
            in if 0 \<le> i \<and> i < int (length buf)
               then (if timestamp (buf ! nat i) \<ge> t
                     then dichotomy buf n t i_left j
                     else if int_ok (j + 1) then dichotomy buf n t (j + 1) i_right
                     else Some (Inl INT_OVERFLOW))
               else Some (Inl BAD_INDEX)))
      else Some (Inr i_left))"

declare dichotomy.simps [code]

text \<open>The index array of the returned view: \<open>range(i1, i2+1)\<close>, or the two ranges around the end.\<close>

definition view_indices :: "'a raw list \<Rightarrow> int \<Rightarrow> int \<Rightarrow> int list" where
  "view_indices buf i1 i2 =
     (if i1 \<le> i2 then [i1..i2] else [i1..int (length buf) - 1] @ [0..i2])"

text \<open>The end of \<open>getRaws\<close>, once \<open>i1\<close> and \<open>i2\<close> are known: the release and the view.\<close>

definition getRaws_view :: "'a sensor \<Rightarrow> bool \<Rightarrow> int \<Rightarrow> int \<Rightarrow> ('a, int list) result" where
  "getRaws_view s release' i1 i2 =
     Inr (if release' then s\<lparr>read_pos := i1\<rparr> else s, view_indices (buffer s) i1 i2)"

text \<open>
  \<open>getRaws\<close>. The result is the state and the index array of the view; \<open>None\<close> is a
  call that never returns. The slot \<open>i1\<close> is read only when \<open>no_larger\<close> holds (the
  \<open>&&\<close> of the source); otherwise \<open>x1\<close> stands for nothing that is read. The early
  return of the empty view, \<open>range(0,0)\<close>, comes before the release. The sums
  \<open>write_pos + bufferSize\<close> and \<open>i - 1 + bufferSize\<close> are checked against the range of
  \<open>int\<close>, as \<open>i_left + i_right\<close> and \<open>j + 1\<close> are in the loop.
\<close>

definition getRaws :: "'a sensor \<Rightarrow> real \<Rightarrow> real \<Rightarrow> bool \<Rightarrow> ('a, int list) result option" where
  "getRaws s t1 t2 release' =
     (if \<not> t1 \<le> t2 then Some (Inl (ASSERTION_FAILED, s))
      else if \<not> int_ok (write_pos s + bufferSize s) then Some (Inl (INT_OVERFLOW, s))
      else
        (case dichotomy (buffer s) (bufferSize s) t1 (write_pos s) (write_pos s + bufferSize s - 1) of
           None \<Rightarrow> None
         | Some (Inl e) \<Rightarrow> Some (Inl (e, s))
         | Some (Inr i_left) \<Rightarrow>
             (let i = i_left smod bufferSize s;
                  i1 = (if t1 \<le> - 0.1 then i else (i - 1 + bufferSize s) smod bufferSize s)
              in if \<not> int_ok (i - 1 + bufferSize s) then Some (Inl (INT_OVERFLOW, s))
                 else case slot (buffer s) i of
                   Inl e \<Rightarrow> Some (Inl (e, s))
                 | Inr xi \<Rightarrow>
                     (let no_larger = (timestamp xi < t1);
                          no_smaller = (i = write_pos s)
                      in case (if no_larger then slot (buffer s) i1 else Inr xi) of
                           Inl e \<Rightarrow> Some (Inl (e, s))
                         | Inr x1 \<Rightarrow>
                             if no_larger \<and> timestamp x1 < 0 then Some (Inr (s, []))
                             else if no_smaller \<and> t1 > 0 then Some (Inl (BUFFER_OVERFLOW, s))
                             else if no_larger then Some (getRaws_view s release' i1 i1)
                             else
                               (case dichotomy (buffer s) (bufferSize s) t2 i_left
                                       (write_pos s + bufferSize s - 1) of
                                  None \<Rightarrow> None
                                | Some (Inl e) \<Rightarrow> Some (Inl (e, s))
                                | Some (Inr i_left2) \<Rightarrow>
                                    Some (getRaws_view s release' i1
                                            (i_left2 smod bufferSize s)))))))"

section \<open>Sequences of operations\<close>









section \<open>Proprioceptive quantity registry\<close>

text \<open>
  The members that \<open>HardwareSensorProprioAbstract\<close> adds. The enumerator \<open>qNQuantity\<close>
  counts the quantities and is the length of the arrays; the tables
  \<open>QuantityDataSizes\<close> and \<open>QuantityObsSizes\<close> are declared in the header and defined
  elsewhere, so they are arguments.
\<close>

datatype Quantity =
  qPos | qOriQuat | qOriEuler | qVel | qAbsVel | qAngVel | qAbsAngVel | qAcc | qAbsAcc
  | qBundleobs | qMag

datatype CovType = ctNone | ctVar | ctFull

record registry =
  quantities :: "Quantity \<Rightarrow> int"
  data_size :: "64 word"
  obs_size :: "64 word"
  cov_type :: CovType

definition clearQuantities :: "registry \<Rightarrow> registry" where
  "clearQuantities g = g\<lparr>quantities := (\<lambda>q. - 1), data_size := 0, obs_size := 0\<rparr>"

definition HardwareSensorProprioAbstract :: "CovType \<Rightarrow> registry" where
  "HardwareSensorProprioAbstract covType =
     clearQuantities \<lparr>quantities = (\<lambda>q. 0), data_size = 0, obs_size = 0, cov_type = covType\<rparr>"

definition addQuantity ::
  "(Quantity \<Rightarrow> int) \<Rightarrow> (Quantity \<Rightarrow> int) \<Rightarrow> registry \<Rightarrow> Quantity \<Rightarrow> registry" where
  "addQuantity QuantityDataSizes QuantityObsSizes g quantity =
     g\<lparr>quantities := (quantities g)(quantity := sint (ucast (data_size g + 1) :: 32 word)),
       data_size := data_size g + word_of_int (QuantityDataSizes quantity),
       obs_size := obs_size g + word_of_int (QuantityObsSizes quantity)\<rparr>"

text \<open>
  \<open>readingSize\<close> switches over the three enumerators of \<open>CovType\<close>; its \<open>default\<close>
  branch is for values outside the enumeration, which the datatype does not have.
\<close>

definition dataSize :: "registry \<Rightarrow> 64 word" where
  "dataSize g = data_size g"

definition readingSize :: "registry \<Rightarrow> 64 word" where
  "readingSize g =
     (case cov_type g of
        ctNone \<Rightarrow> 1 + data_size g
      | ctVar \<Rightarrow> 1 + data_size g * 2
      | ctFull \<Rightarrow> 1 + data_size g * (data_size g + 3) div 2)"

section \<open>Well-formed states\<close>

text \<open>The positions lie in the ring.\<close>

definition positions_ok :: "'a sensor \<Rightarrow> bool" where
  "positions_ok s =
     (0 \<le> write_pos s \<and> write_pos s < bufferSize s \<and> 0 \<le> read_pos s \<and> read_pos s < bufferSize s)"

text \<open>The buffer has \<open>bufferSize\<close> slots and \<open>bufferSize\<close> is a value of type \<open>int\<close>.\<close>

definition sized :: "'a sensor \<Rightarrow> bool" where
  "sized s = (int (length (buffer s)) = bufferSize s \<and> bufferSize s \<le> INT_MAX)"

text \<open>
  The slots in ring order, starting at the write position: the order in which the
  producer will overwrite them, oldest first. The ring is chronological when the
  timestamps do not decrease along it.
\<close>

definition ring_order :: "'a sensor \<Rightarrow> 'a raw list" where
  "ring_order s = rotate (nat (write_pos s)) (buffer s)"

definition chronological :: "'a sensor \<Rightarrow> bool" where
  "chronological s = sorted (map timestamp (ring_order s))"

text \<open>The physical slot at place \<open>k\<close> of the ring order.\<close>

definition ring_slot :: "'a sensor \<Rightarrow> int \<Rightarrow> int" where
  "ring_slot s k = (write_pos s + k) mod bufferSize s"

text \<open>
  A ring small enough for the sums of \<open>getRaws\<close>: its logical indices stay below
  \<open>2 * bufferSize\<close>, and the dichotomy adds two of them.
\<close>

definition searchable :: "'a sensor \<Rightarrow> bool" where
  "searchable s = (4 * bufferSize s \<le> INT_MAX)"



text \<open>An \<open>unsigned\<close> argument that names a slot of the ring.\<close>

definition valid_id :: "'a sensor \<Rightarrow> 32 word \<Rightarrow> bool" where
  "valid_id s id' = (uint id' < bufferSize s)"

text \<open>\<open>n\<close> successive calls of \<open>observeRaw\<close> on the same slot, and what each returned.\<close>

fun observeRaw_times :: "nat \<Rightarrow> 'a sensor \<Rightarrow> 32 word \<Rightarrow> ('a, 'a raw list) result" where
  "observeRaw_times 0 s id' = Inr (s, [])"
| "observeRaw_times (Suc n) s id' =
     (case observeRaw s id' of
        Inl e \<Rightarrow> Inl e
      | Inr (s1, x) \<Rightarrow>
          (case observeRaw_times n s1 id' of
             Inl e \<Rightarrow> Inl e
           | Inr (s2, xs) \<Rightarrow> Inr (s2, x # xs)))"

section \<open>Example states\<close>

text \<open>
  A ring of four slots that \<open>initData\<close> has marked as holding no data, and the readings
  pushed into it in the examples.
\<close>

definition no_data :: "unit raw" where
  "no_data = \<lparr>timestamp = - 99, arrival = 0, content = ()\<rparr>"

definition reading :: "real \<Rightarrow> real \<Rightarrow> unit raw" where
  "reading t a = \<lparr>timestamp = t, arrival = a, content = ()\<rparr>"

definition ring4 :: "unit sensor" where
  "ring4 = initData id (HardwareSensorAbstract 4 no_data 0 1 0)"


definition ring4_done :: "unit sensor" where
  "ring4_done = ring4\<lparr>no_more_data := True\<rparr>"

text \<open>Widths of the quantities, as the header documents their components.\<close>

definition example_sizes :: "Quantity \<Rightarrow> int" where
  "example_sizes q = (case q of qOriQuat \<Rightarrow> 4 | qBundleobs \<Rightarrow> 6 | _ \<Rightarrow> 3)"



definition three_readings :: "unit raw list" where
  "three_readings = [reading 1 1.5, reading 2 2.5, reading 3 3.5]"

definition full4 :: "unit sensor" where
  "full4 = push_all ring4 [reading 1 1.5, reading 2 2.5, reading 3 3.5, reading 4 4.5]"

text \<open>
  Three readings of negative timestamps. The example ring after three pushes, and
  after four pushes, the release of the four readings and a fifth push, which goes
  to slot 0.
\<close>

definition neg_readings :: "unit raw list" where
  "neg_readings = [reading (- 3) 0.5, reading (- 2) 1.5, reading (- 1) 2.5]"

definition part3 :: "unit sensor" where
  "part3 = preloaded 4 no_data id 0 1 0 three_readings"

definition wrapped4 :: "unit sensor" where
  "wrapped4 = state_of (push (release full4 3) (reading 5 5.5))"

text \<open>
  Two rings too large for the sums of \<open>getRaws\<close>. The first has \<open>2^30 + 1\<close> slots and
  is pre-loaded with \<open>2^30\<close> readings of timestamps 0, 1, 2, \<dots>. The second has
  \<open>2^31 - 1\<close> slots; it is pre-loaded with readings of timestamp 1 up to its last slot,
  then twice its oldest reading is released and one more reading pushed, so that the
  write position has wrapped to slot 1.
\<close>

definition stamped :: "nat \<Rightarrow> unit raw" where
  "stamped k = reading (real k) (real k)"

definition big_readings :: "unit raw list" where
  "big_readings = map stamped [0..<1073741824]"

definition big_ring :: "unit sensor" where
  "big_ring = preloaded 1073741825 no_data id 0 1 0 big_readings"

definition big_wrapped :: "unit sensor" where
  "big_wrapped =
     state_of (push (release (state_of (push (release
       (preloaded 2147483647 no_data id 0 1 0 (replicate 2147483646 (reading 1 1.5))) 0)
         (reading 1 1.5))) 1) (reading 1 1.5))"

section \<open>Slot indices and reads inside the ring\<close>

lemma sint_slot: "uint (w :: 32 word) < n \<Longrightarrow> n \<le> INT_MAX \<Longrightarrow> sint w = uint w"
proof -
  assume a: "uint w < n" "n \<le> INT_MAX"
  have "- (2 ^ 31) \<le> uint w" "uint w < 2 ^ 31"
    using a by (simp_all add: INT_MAX_def order_trans [of _ 0])
  then have "signed_take_bit 31 (uint w) = uint w"
    by (rule signed_take_bit_int_eq_self)
  then show ?thesis by (simp add: sint_uint)
qed

lemma sint_succ_slot:
  "uint (w :: 32 word) < n \<Longrightarrow> n \<le> INT_MAX \<Longrightarrow> sint (w + 1) = uint w + 1"
  by (simp add: INT_MAX_def sint_uint signed_take_bit_int_eq_self uint_word_ariths)

lemma last_slot_iff:
  "uint (w :: 32 word) < n \<Longrightarrow> n \<le> INT_MAX \<Longrightarrow> (w = word_of_int (n - 1)) = (uint w = n - 1)"
proof -
  assume a: "uint w < n" "n \<le> INT_MAX"
  have "0 \<le> n - 1" using a uint_ge_0 [of w] by linarith
  moreover have "n - 1 < 2 ^ 32" using a by (simp add: INT_MAX_def)
  ultimately have "uint (word_of_int (n - 1) :: 32 word) = n - 1"
    by (simp only: uint_word_of_int) simp
  then show ?thesis by (metis word_of_int_uint)
qed

lemma slot_in_range: "0 \<le> i \<Longrightarrow> i < int (length buf) \<Longrightarrow> slot buf i = Inr (buf ! nat i)"
  by (simp add: slot_def)

lemma first_unread_in_range:
  "positions_ok s \<Longrightarrow> 0 \<le> getFirstUnreadPos s \<and> getFirstUnreadPos s < bufferSize s"
  by (auto simp add: positions_ok_def getFirstUnreadPos_def)

lemma last_unread_in_range:
  "positions_ok s \<Longrightarrow> 0 \<le> getLastUnreadPos s \<and> getLastUnreadPos s < bufferSize s"
  by (auto simp add: positions_ok_def getLastUnreadPos_def)

lemma raw_infos_of_in_range:
  "\<forall>p \<in> set ps. 0 \<le> p \<and> p < int (length buf) \<Longrightarrow>
   raw_infos_of buf ps =
     Inr (map (\<lambda>p. RawInfo (word_of_int p) (timestamp (buf ! nat p)) (arrival (buf ! nat p))) ps)"
  by (induction ps) (simp_all add: slot_in_range)

text \<open>The example ring after four pushes: every slot written, the write position back at 0.\<close>

lemma full4_state:
  "full4 = \<lparr>write_pos = 0, read_pos = 0, buffer_full = True, read_pos_used = False,
    index = - 1, data_count = 4, last_sent_pos = 0, no_more_data = False,
    data_period = 1, arrival_delay = 0, bufferSize = 4,
    buffer = [reading 1 1.5, reading 2 2.5, reading 3 3.5, reading 4 4.5]\<rparr>"
  by code_simp

section \<open>Release through a slot\<close>

lemma release_state:
  assumes "valid_id s id'" and "sized s"
  shows "release s id' =
           s\<lparr>read_pos := (uint id' + 1) mod bufferSize s,
             buffer_full := (buffer_full s \<and> (uint id' + 1) mod bufferSize s \<noteq> write_pos s),
             read_pos_used := False\<rparr>"
proof -
  have lt: "uint id' < bufferSize s" and mx: "bufferSize s \<le> INT_MAX"
    using assms by (simp_all add: valid_id_def sized_def)
  show ?thesis
  proof (cases "uint id' = bufferSize s - 1")
    case True
    then have "id' = word_of_int (bufferSize s - 1)"
      using last_slot_iff [OF lt mx] by simp
    moreover have "(uint id' + 1) mod bufferSize s = 0" using True by simp
    ultimately show ?thesis by (auto simp add: release_def Let_def)
  next
    case False
    then have ne: "id' \<noteq> word_of_int (bufferSize s - 1)"
      using last_slot_iff [OF lt mx] by simp
    have "(uint id' + 1) mod bufferSize s = uint id' + 1"
      using False lt by simp
    then show ?thesis
      using ne sint_succ_slot [OF lt mx] by (auto simp add: release_def Let_def)
  qed
qed

text \<open>
  C6. For a slot index \<open>id\<close> of the ring, \<open>release(id)\<close> sets \<open>read_pos\<close> to
  \<open>(id + 1) mod bufferSize\<close>, sets \<open>read_pos_used\<close> to false, and clears \<open>buffer_full\<close>
  exactly when the new \<open>read_pos\<close> equals \<open>write_pos\<close>; \<open>write_pos\<close>, the buffer and every
  other member keep their values.
\<close>

theorem release_effect:
  assumes "valid_id s id'" and "sized s"
  shows "release s id' =
           s\<lparr>read_pos := (uint id' + 1) mod bufferSize s,
             buffer_full := (buffer_full s \<and> (uint id' + 1) mod bufferSize s \<noteq> write_pos s),
             read_pos_used := False\<rparr>"
  using assms by (rule release_state)

theorem release_effect_witness:
  "valid_id full4 3 \<and> sized full4 \<and>
   release full4 3 = full4\<lparr>read_pos := 0, buffer_full := False, read_pos_used := False\<rparr>"
proof -
  have v: "valid_id full4 3" by (simp add: valid_id_def full4_state)
  have z: "sized full4" by (simp add: sized_def full4_state INT_MAX_def)
  show ?thesis using release_effect [OF v z] v z by (simp add: full4_state)
qed

section \<open>Peeking at a slot\<close>

text \<open>
  C7. For a slot index \<open>id\<close> of the ring, \<open>observeRaw(id, out)\<close> copies slot \<open>id\<close> into
  \<open>out\<close> and returns the state it was called in, every member unchanged; \<open>n\<close> calls in
  a row return \<open>n\<close> times the same reading, and \<open>getUnreadRawInfos\<close> answers afterwards
  what it answered before.
\<close>

theorem observeRaw_frame:
  assumes "valid_id s id'" and "sized s"
  shows "observeRaw s id' = Inr (s, buffer s ! unat id') \<and>
         observeRaw_times n s id' = Inr (s, replicate n (buffer s ! unat id')) \<and>
         getUnreadRawInfos (state_of (observeRaw_times n s id')) last_ts infos =
           getUnreadRawInfos s last_ts infos"
proof -
  have one: "observeRaw s id' = Inr (s, buffer s ! unat id')"
    using assms by (simp add: observeRaw_def valid_id_def sized_def slot_def)
  have many: "observeRaw_times n s id' = Inr (s, replicate n (buffer s ! unat id'))"
    by (induction n) (simp_all add: one)
  show ?thesis using one many by (simp add: state_of_def)
qed

theorem observeRaw_frame_witness:
  "valid_id full4 1 \<and> sized full4 \<and> observeRaw full4 1 = Inr (full4, reading 2 2.5) \<and>
   observeRaw_times 3 full4 1 = Inr (full4, [reading 2 2.5, reading 2 2.5, reading 2 2.5])"
proof -
  have v: "valid_id full4 1" by (simp add: valid_id_def full4_state)
  have z: "sized full4" by (simp add: sized_def full4_state INT_MAX_def)
  have b: "buffer full4 ! unat (1 :: 32 word) = reading 2 2.5" by (simp add: full4_state)
  have "replicate 3 (reading 2 2.5) = [reading 2 2.5, reading 2 2.5, reading 2 2.5]"
    by (simp add: numeral_3_eq_3)
  then show ?thesis using observeRaw_frame [OF v z, of 3] v z b by simp
qed

section \<open>Status codes and the next reading\<close>

lemma ring4_state:
  "ring4 = \<lparr>write_pos = 0, read_pos = 0, buffer_full = False, read_pos_used = False,
    index = - 1, data_count = 0, last_sent_pos = 0, no_more_data = False,
    data_period = 1, arrival_delay = 0, bufferSize = 4,
    buffer = [no_data, no_data, no_data, no_data]\<rparr>"
  by code_simp

lemma status_of_Inr: "status_of (Inr (s, code, v)) = Some code"
  by (simp add: status_of_def)

lemma state_of_Inr: "state_of (Inr (s, v)) = s"
  by (simp add: state_of_def)

lemma state_of_Inl: "state_of (Inl (e, s)) = s"
  by (simp add: state_of_def)

lemma word_of_slot: "0 \<le> i \<Longrightarrow> i < n \<Longrightarrow> n \<le> INT_MAX \<Longrightarrow> uint (word_of_int i :: 32 word) = i"
  by (simp add: uint_word_of_int INT_MAX_def)

lemma getNextRawInfo_nonempty:
  assumes "\<not> isEmpty s" and "positions_ok s" and "sized s"
  shows "getNextRawInfo s info =
           Inr (s, 0, RawInfo (word_of_int (getFirstUnreadPos s))
                        (timestamp (buffer s ! nat (getFirstUnreadPos s))) 0)"
proof -
  have r: "0 \<le> getFirstUnreadPos s" "getFirstUnreadPos s < bufferSize s"
    using first_unread_in_range [OF assms(2)] by simp_all
  have l: "int (length (buffer s)) = bufferSize s"
    using assms(3) by (simp add: sized_def)
  have "slot (buffer s) (getFirstUnreadPos s) = Inr (buffer s ! nat (getFirstUnreadPos s))"
    using r l by (simp add: slot_in_range)
  then show ?thesis
    using assms(1) by (simp add: getNextRawInfo_def Let_def)
qed

text \<open>
  C10. On a buffer that is not empty, \<open>getNextRawInfo(info)\<close> returns 0 and sets \<open>info.id\<close>
  to the first unread position and \<open>info.timestamp\<close> to the timestamp stored there, but
  sets \<open>info.arrival\<close> to \<open>0.0\<close> whatever arrival time the slot holds: the descriptor
  does not carry the arrival time of the reading.
\<close>

theorem getNextRawInfo_arrival:
  assumes "\<not> isEmpty s" and "positions_ok s" and "sized s"
  shows "getNextRawInfo s info =
           Inr (s, 0, RawInfo (word_of_int (getFirstUnreadPos s))
                        (timestamp (buffer s ! nat (getFirstUnreadPos s))) 0) \<and>
         uint (word_of_int (getFirstUnreadPos s) :: 32 word) = getFirstUnreadPos s \<and>
         fst (snd (projr (getNextRawInfo s info))) = 0 \<and>
         uint (ri_id (snd (snd (projr (getNextRawInfo s info))))) = getFirstUnreadPos s \<and>
         ri_timestamp (snd (snd (projr (getNextRawInfo s info)))) =
           timestamp (buffer s ! nat (getFirstUnreadPos s)) \<and>
         ri_arrival (snd (snd (projr (getNextRawInfo s info)))) = 0"
proof -
  have r: "0 \<le> getFirstUnreadPos s" "getFirstUnreadPos s < bufferSize s"
    using first_unread_in_range [OF assms(2)] by simp_all
  have m: "bufferSize s \<le> INT_MAX"
    using assms(3) by (simp add: sized_def)
  show ?thesis
    using getNextRawInfo_nonempty [OF assms, of info] word_of_slot [OF r m]
    by (simp add: RawInfo_def)
qed

theorem getNextRawInfo_arrival_witness:
  "\<not> isEmpty full4 \<and> positions_ok full4 \<and> sized full4 \<and>
   fst (snd (projr (getNextRawInfo full4 \<lparr>ri_id = 7, ri_timestamp = 7, ri_arrival = 7\<rparr>))) = 0 \<and>
   ri_id (snd (snd (projr (getNextRawInfo full4
      \<lparr>ri_id = 7, ri_timestamp = 7, ri_arrival = 7\<rparr>)))) = 0 \<and>
   ri_timestamp (snd (snd (projr (getNextRawInfo full4
      \<lparr>ri_id = 7, ri_timestamp = 7, ri_arrival = 7\<rparr>)))) = 1 \<and>
   ri_arrival (snd (snd (projr (getNextRawInfo full4
      \<lparr>ri_id = 7, ri_timestamp = 7, ri_arrival = 7\<rparr>)))) = 0 \<and>
   arrival (buffer full4 ! 0) = 1.5"
proof -
  have e: "\<not> isEmpty full4" by (simp add: isEmpty_def getFirstUnreadPos_def full4_state)
  have p: "positions_ok full4" by (simp add: positions_ok_def full4_state)
  have z: "sized full4" by (simp add: sized_def full4_state INT_MAX_def)
  have f: "getFirstUnreadPos full4 = 0" by (simp add: getFirstUnreadPos_def full4_state)
  have b: "buffer full4 ! 0 = reading 1 1.5" by (simp add: full4_state)
  show ?thesis
    using getNextRawInfo_arrival [OF e p z, of "\<lparr>ri_id = 7, ri_timestamp = 7, ri_arrival = 7\<rparr>"]
      e p z
    by (simp add: f b reading_def RawInfo_def)
qed

lemma unread_positions_in_range:
  assumes "positions_ok s"
  shows "\<forall>p \<in> set (unread_positions s). 0 \<le> p \<and> p < bufferSize s"
  using first_unread_in_range [OF assms] last_unread_in_range [OF assms]
  by (auto simp add: unread_positions_def Let_def)

lemma unread_positions_nonempty:
  assumes "positions_ok s"
  shows "unread_positions s \<noteq> []"
  using first_unread_in_range [OF assms] last_unread_in_range [OF assms]
  by (auto simp add: unread_positions_def Let_def)

lemma getUnreadRawInfos_nonempty:
  assumes "positions_ok s" and "sized s" and "\<not> isEmpty s"
  shows "status_of (getUnreadRawInfos s last_ts infos) = Some 0"
proof -
  have l: "int (length (buffer s)) = bufferSize s" using assms(2) by (simp add: sized_def)
  have "raw_infos_of (buffer s) (unread_positions s) =
     Inr (map (\<lambda>p. RawInfo (word_of_int p) (timestamp (buffer s ! nat p))
                  (arrival (buffer s ! nat p))) (unread_positions s))"
    using unread_positions_in_range [OF assms(1)] l by (intro raw_infos_of_in_range) simp
  then show ?thesis
    using assms(3) unread_positions_nonempty [OF assms(1)]
    by (simp add: getUnreadRawInfos_def Let_def status_of_Inr)
qed

lemma getUnreadRawInfos_empty:
  assumes "isEmpty s"
  shows "getUnreadRawInfos s last_ts infos =
     Inr (s, if no_more_data s then - 2 else - 1,
          infos\<lparr>available := [],
            next_info := RawInfo 0 (last_ts + data_period s)
                           (last_ts + data_period s + arrival_delay s),
            process_time := 0\<rparr>)"
  using assms by (simp add: getUnreadRawInfos_def Let_def)

lemma getNextRawInfo_empty:
  assumes "isEmpty s"
  shows "getNextRawInfo s info = Inr (s, if no_more_data s then - 2 else - 1, info)"
  using assms by (simp add: getNextRawInfo_def)

text \<open>
  C5. \<open>getUnreadRawInfos\<close> and \<open>getNextRawInfo\<close> return 0 when an unread reading is
  available, \<open>-1\<close> when the buffer is empty and \<open>no_more_data\<close> is false, and \<open>-2\<close> when it
  is empty and \<open>no_more_data\<close> is true. Neither changes the state, so on an empty
  end-of-stream buffer a second call returns \<open>-2\<close> again.
\<close>

theorem status_codes:
  "(positions_ok s \<and> sized s \<and> \<not> isEmpty s \<longrightarrow>
      status_of (getUnreadRawInfos s last_ts infos) = Some 0 \<and>
      status_of (getNextRawInfo s info) = Some 0) \<and>
   (isEmpty s \<and> \<not> no_more_data s \<longrightarrow>
      status_of (getUnreadRawInfos s last_ts infos) = Some (- 1) \<and>
      status_of (getNextRawInfo s info) = Some (- 1)) \<and>
   (isEmpty s \<and> no_more_data s \<longrightarrow>
      status_of (getUnreadRawInfos s last_ts infos) = Some (- 2) \<and>
      status_of (getNextRawInfo s info) = Some (- 2) \<and>
      state_of (getUnreadRawInfos s last_ts infos) = s \<and>
      state_of (getNextRawInfo s info) = s \<and>
      status_of (getUnreadRawInfos (state_of (getUnreadRawInfos s last_ts infos)) last_ts infos2)
        = Some (- 2) \<and>
      status_of (getNextRawInfo (state_of (getNextRawInfo s info)) info2) = Some (- 2))"
proof -
  have a: "positions_ok s \<and> sized s \<and> \<not> isEmpty s \<longrightarrow>
      status_of (getUnreadRawInfos s last_ts infos) = Some 0 \<and>
      status_of (getNextRawInfo s info) = Some 0"
    by (simp add: getUnreadRawInfos_nonempty getNextRawInfo_nonempty status_of_Inr)
  have b: "isEmpty s \<and> \<not> no_more_data s \<longrightarrow>
      status_of (getUnreadRawInfos s last_ts infos) = Some (- 1) \<and>
      status_of (getNextRawInfo s info) = Some (- 1)"
    by (simp add: getUnreadRawInfos_empty getNextRawInfo_empty status_of_Inr)
  have c: "isEmpty s \<and> no_more_data s \<longrightarrow>
      status_of (getUnreadRawInfos s last_ts infos) = Some (- 2) \<and>
      status_of (getNextRawInfo s info) = Some (- 2) \<and>
      state_of (getUnreadRawInfos s last_ts infos) = s \<and>
      state_of (getNextRawInfo s info) = s \<and>
      status_of (getUnreadRawInfos (state_of (getUnreadRawInfos s last_ts infos)) last_ts infos2)
        = Some (- 2) \<and>
      status_of (getNextRawInfo (state_of (getNextRawInfo s info)) info2) = Some (- 2)"
    by (simp add: getUnreadRawInfos_empty getNextRawInfo_empty status_of_Inr state_of_Inr)
  show ?thesis using a b c by blast
qed

theorem status_codes_witness:
  "(positions_ok full4 \<and> sized full4 \<and> \<not> isEmpty full4) \<and>
   status_of (getUnreadRawInfos full4 4 \<lparr>available = [], next_info = RawInfo 0 0 0, process_time = 0, integrate_all = False\<rparr>) = Some 0 \<and>
   status_of (getNextRawInfo full4 (RawInfo 0 0 0)) = Some 0 \<and>
   (isEmpty ring4 \<and> \<not> no_more_data ring4) \<and>
   status_of (getUnreadRawInfos ring4 0 \<lparr>available = [], next_info = RawInfo 0 0 0, process_time = 0, integrate_all = False\<rparr>) = Some (- 1) \<and>
   status_of (getNextRawInfo ring4 (RawInfo 0 0 0)) = Some (- 1) \<and>
   (isEmpty ring4_done \<and> no_more_data ring4_done) \<and>
   status_of (getUnreadRawInfos ring4_done 0 \<lparr>available = [], next_info = RawInfo 0 0 0, process_time = 0, integrate_all = False\<rparr>) = Some (- 2) \<and>
   status_of (getNextRawInfo ring4_done (RawInfo 0 0 0)) = Some (- 2)"
proof -
  have f: "positions_ok full4 \<and> sized full4 \<and> \<not> isEmpty full4"
    by (simp add: positions_ok_def sized_def INT_MAX_def isEmpty_def getFirstUnreadPos_def full4_state)
  have r: "isEmpty ring4 \<and> \<not> no_more_data ring4"
    by (simp add: isEmpty_def getFirstUnreadPos_def ring4_state)
  have d: "isEmpty ring4_done \<and> no_more_data ring4_done"
    by (simp add: isEmpty_def getFirstUnreadPos_def ring4_state ring4_done_def)
  let ?i = "\<lparr>available = [], next_info = RawInfo 0 0 0, process_time = 0, integrate_all = False\<rparr>"
  show ?thesis
    using status_codes [of full4 4 ?i "RawInfo 0 0 0"]
      status_codes [of ring4 0 ?i "RawInfo 0 0 0"]
      status_codes [of ring4_done 0 ?i "RawInfo 0 0 0"] f r d
    by blast
qed

section \<open>Taking a reading\<close>

lemma releaseUntil_effect:
  assumes "valid_id s id'" and "sized s"
  shows "releaseUntil s id' =
           s\<lparr>read_pos := uint id', read_pos_used := True,
             buffer_full := (buffer_full s \<and> (uint id' + 1) mod bufferSize s \<noteq> write_pos s)\<rparr>"
proof -
  have lt: "uint id' < bufferSize s" and mx: "bufferSize s \<le> INT_MAX"
    using assms by (simp_all add: valid_id_def sized_def)
  have si: "sint id' = uint id'" using sint_slot [OF lt mx] .
  show ?thesis
  proof (cases "uint id' = bufferSize s - 1")
    case True
    then have "(uint id' + 1) mod bufferSize s = 0" by simp
    then show ?thesis using True si
      by (auto simp add: releaseUntil_def Let_def getFirstUnreadPos_def)
  next
    case False
    then have "(uint id' + 1) mod bufferSize s = uint id' + 1"
      using lt by simp
    then show ?thesis using False si
      by (auto simp add: releaseUntil_def Let_def getFirstUnreadPos_def)
  qed
qed

text \<open>
  C4, as the code has it. For a slot index \<open>id\<close> of the ring and a counter \<open>index\<close>
  below the largest \<open>int\<close>, \<open>getRaw(id, out)\<close> copies slot \<open>id\<close> into \<open>out\<close>, releases
  the slots before \<open>id\<close> by way of \<open>releaseUntil\<close> (\<open>read_pos\<close> becomes \<open>id\<close> and is flagged
  as in use; \<open>buffer_full\<close> is cleared exactly when the slot after \<open>id\<close> is the write
  position), records \<open>id\<close> in \<open>last_sent_pos\<close> and increments \<open>index\<close> by exactly one.
  On a ring of at least two slots that was full with \<open>id\<close> at the write position, the
  buffer is still full afterwards: slot \<open>id\<close> is not given to the producer.
\<close>

theorem getRaw_effect:
  assumes "valid_id s id'" and "sized s" and "index s < INT_MAX" and "- INT_MAX - 1 \<le> index s + 1"
  shows "getRaw s id' =
           Inr (s\<lparr>read_pos := uint id', read_pos_used := True,
                  buffer_full := (buffer_full s \<and> (uint id' + 1) mod bufferSize s \<noteq> write_pos s),
                  last_sent_pos := uint id', index := index s + 1\<rparr>,
                buffer s ! unat id') \<and>
         (2 \<le> bufferSize s \<and> isFull s \<and> write_pos s = uint id' \<longrightarrow>
            isFull (state_of (getRaw s id')))"
proof -
  have lt: "uint id' < bufferSize s" and mx: "bufferSize s \<le> INT_MAX"
    and l: "int (length (buffer s)) = bufferSize s"
    using assms by (simp_all add: valid_id_def sized_def)
  have si: "sint id' = uint id'" using sint_slot [OF lt mx] .
  have ok: "int_ok (index s + 1)" using assms(3,4) by (simp add: int_ok_def)
  have "slot (buffer s) (uint id') = Inr (buffer s ! unat id')"
    using lt l by (simp add: slot_def)
  then have g: "getRaw s id' =
           Inr (s\<lparr>read_pos := uint id', read_pos_used := True,
                  buffer_full := (buffer_full s \<and> (uint id' + 1) mod bufferSize s \<noteq> write_pos s),
                  last_sent_pos := uint id', index := index s + 1\<rparr>,
                buffer s ! unat id')"
    using releaseUntil_effect [OF assms(1,2)] si ok by (simp add: getRaw_def Let_def)
  have "isFull (state_of (getRaw s id'))"
    if h: "2 \<le> bufferSize s \<and> isFull s \<and> write_pos s = uint id'"
  proof -
    have "(uint id' + 1) mod bufferSize s \<noteq> uint id'"
    proof (cases "uint id' + 1 < bufferSize s")
      case True
      then have "(uint id' + 1) mod bufferSize s = uint id' + 1" by simp
      then show ?thesis by simp
    next
      case False
      then have "uint id' + 1 = bufferSize s" using lt by simp
      then have "(uint id' + 1) mod bufferSize s = 0" "uint id' \<noteq> 0" using h by simp_all
      then show ?thesis by simp
    qed
    then show ?thesis using h unfolding g by (simp add: state_of_def isFull_def)
  qed
  then show ?thesis using g by blast
qed

theorem getRaw_effect_witness:
  "valid_id full4 0 \<and> sized full4 \<and> index full4 < INT_MAX \<and> - INT_MAX - 1 \<le> index full4 + 1 \<and>
   2 \<le> bufferSize full4 \<and> isFull full4 \<and> write_pos full4 = uint (0 :: 32 word) \<and>
   getRaw full4 0 = Inr (full4\<lparr>read_pos_used := True, last_sent_pos := 0, index := 0\<rparr>,
                         reading 1 1.5) \<and>
   isFull (state_of (getRaw full4 0))"
proof -
  have v: "valid_id full4 0" by (simp add: valid_id_def full4_state)
  have z: "sized full4" by (simp add: sized_def full4_state INT_MAX_def)
  have i: "index full4 < INT_MAX" "- INT_MAX - 1 \<le> index full4 + 1"
    by (simp_all add: full4_state INT_MAX_def)
  have f: "2 \<le> bufferSize full4 \<and> isFull full4 \<and> write_pos full4 = uint (0 :: 32 word)"
    by (simp add: full4_state isFull_def)
  have e: "full4\<lparr>read_pos := uint (0 :: 32 word), read_pos_used := True,
             buffer_full := (buffer_full full4 \<and>
               (uint (0 :: 32 word) + 1) mod bufferSize full4 \<noteq> write_pos full4),
             last_sent_pos := uint (0 :: 32 word), index := index full4 + 1\<rparr> =
           full4\<lparr>read_pos_used := True, last_sent_pos := 0, index := 0\<rparr>"
    by (simp add: full4_state)
  have b: "buffer full4 ! unat (0 :: 32 word) = reading 1 1.5" by (simp add: full4_state)
  have g: "getRaw full4 0 = Inr (full4\<lparr>read_pos_used := True, last_sent_pos := 0, index := 0\<rparr>,
                         reading 1 1.5)"
    using getRaw_effect [OF v z i] unfolding e b by blast
  have h: "isFull (state_of (getRaw full4 0))"
    using getRaw_effect [OF v z i] f by blast
  show ?thesis using v z i f g h by blast
qed

text \<open>
  C4 as stated says that \<open>getRaw(id, out)\<close> releases slot \<open>id\<close> too, so that the
  producer may overwrite it. On the full example ring, after \<open>getRaw(0, out)\<close> the read
  position is 0, not the 1 that \<open>release(0)\<close> gives; the buffer is still full and the
  producer, whose write position is slot 0, is refused. And C4 as stated has the
  notification index incremented whatever its value: when it is \<open>INT_MAX\<close>, the
  increment leaves the range of \<open>int\<close>.
\<close>

theorem getRaw_release_counterexample:
  "read_pos (state_of (getRaw full4 0)) \<noteq> read_pos (release full4 0) \<and>
   isFull (state_of (getRaw full4 0)) \<and>
   \<not> isFull (release full4 0) \<and>
   getWritePos (state_of (getRaw full4 0)) = Inl (GENERIC_ERROR, state_of (getRaw full4 0)) \<and>
   write_pos (state_of (getRaw full4 0)) = 0 \<and>
   map_sum fst snd (getRaw (full4\<lparr>index := INT_MAX\<rparr>) 0) = Inl INT_OVERFLOW \<and>
   index (state_of (getRaw (full4\<lparr>index := INT_MAX\<rparr>) 0)) = INT_MAX"
  by code_simp

section \<open>Size of a proprioceptive reading\<close>

lemma dataSize_foldl:
  "dataSize (foldl (addQuantity ds os) g qs) = dataSize g + word_of_int (sum_list (map ds qs))"
  by (induction qs arbitrary: g) (simp_all add: dataSize_def addQuantity_def add.assoc)

lemma unat_full_size:
  fixes x :: "64 word"
  assumes "unat x < 2 ^ 31"
  shows "unat (1 + x * (x + 3) div 2) = 1 + unat x * (unat x + 3) div 2"
proof -
  have a: "unat (x + 3) = unat x + 3"
    using assms by (simp add: unat_word_ariths)
  have "unat x * (unat x + 3) < 2 ^ 31 * 2 ^ 32"
    using assms by (intro mult_strict_mono) simp_all
  then have lt: "unat x * (unat x + 3) < 2 ^ 64" by simp
  then have b: "unat (x * (x + 3)) = unat x * (unat x + 3)"
    using a by (simp add: unat_word_ariths)
  have c: "unat (x * (x + 3) div 2) = unat x * (unat x + 3) div 2"
    using b by (simp add: unat_div)
  have "1 + unat x * (unat x + 3) div 2 < 2 ^ 64" using lt by simp
  then show ?thesis using c by (simp add: unat_word_ariths)
qed



text \<open>
  C9. \<open>readingSize()\<close> is \<open>1 + dataSize()\<close> under \<open>ctNone\<close>, \<open>1 + 2 * dataSize()\<close> under
  \<open>ctVar\<close> and \<open>1 + dataSize() * (dataSize() + 3) / 2\<close> under \<open>ctFull\<close>, in \<open>size_t\<close>
  arithmetic and, for a data size below \<open>2^31\<close>, as natural numbers; \<open>dataSize()\<close> is
  the sum of the widths of the registered quantities; position (3 values) and
  quaternion (4 values) under \<open>ctFull\<close> give \<open>dataSize() = 7\<close> and \<open>readingSize() = 36\<close>.
\<close>

theorem readingSize_formula:
  "(cov_type g = ctNone \<longrightarrow> readingSize g = 1 + dataSize g) \<and>
   (cov_type g = ctVar \<longrightarrow> readingSize g = 1 + 2 * dataSize g) \<and>
   (cov_type g = ctFull \<longrightarrow> readingSize g = 1 + dataSize g * (dataSize g + 3) div 2) \<and>
   (unat (dataSize g) < 2 ^ 31 \<longrightarrow>
      unat (readingSize g) =
        (case cov_type g of
           ctNone \<Rightarrow> 1 + unat (dataSize g)
         | ctVar \<Rightarrow> 1 + 2 * unat (dataSize g)
         | ctFull \<Rightarrow> 1 + unat (dataSize g) * (unat (dataSize g) + 3) div 2)) \<and>
   dataSize (foldl (addQuantity ds os) (HardwareSensorProprioAbstract ct) qs) =
     word_of_int (sum_list (map ds qs)) \<and>
   (ds qPos = 3 \<and> ds qOriQuat = 4 \<longrightarrow>
      dataSize (foldl (addQuantity ds os) (HardwareSensorProprioAbstract ctFull) [qPos, qOriQuat]) = 7 \<and>
      readingSize (foldl (addQuantity ds os) (HardwareSensorProprioAbstract ctFull) [qPos, qOriQuat])
        = 36)"
proof -
  have w: "cov_type g = ctNone \<longrightarrow> readingSize g = 1 + dataSize g"
    "cov_type g = ctVar \<longrightarrow> readingSize g = 1 + 2 * dataSize g"
    "cov_type g = ctFull \<longrightarrow> readingSize g = 1 + dataSize g * (dataSize g + 3) div 2"
    by (simp_all add: readingSize_def dataSize_def)
  have n: "unat (dataSize g) < 2 ^ 31 \<longrightarrow>
      unat (readingSize g) =
        (case cov_type g of
           ctNone \<Rightarrow> 1 + unat (dataSize g)
         | ctVar \<Rightarrow> 1 + 2 * unat (dataSize g)
         | ctFull \<Rightarrow> 1 + unat (dataSize g) * (unat (dataSize g) + 3) div 2)"
  proof
    assume b: "unat (dataSize g) < 2 ^ 31"
    show "unat (readingSize g) =
        (case cov_type g of
           ctNone \<Rightarrow> 1 + unat (dataSize g)
         | ctVar \<Rightarrow> 1 + 2 * unat (dataSize g)
         | ctFull \<Rightarrow> 1 + unat (dataSize g) * (unat (dataSize g) + 3) div 2)"
    proof (cases "cov_type g")
      case ctNone
      then show ?thesis using b by (simp add: readingSize_def dataSize_def unat_word_ariths)
    next
      case ctVar
      then show ?thesis using b by (simp add: readingSize_def dataSize_def unat_word_ariths)
    next
      case ctFull
      then show ?thesis using unat_full_size [of "data_size g"] b
        by (simp add: readingSize_def dataSize_def)
    qed
  qed
  have i: "dataSize (HardwareSensorProprioAbstract c) = 0" for c
    by (simp add: HardwareSensorProprioAbstract_def clearQuantities_def dataSize_def)
  have s: "dataSize (foldl (addQuantity ds os) (HardwareSensorProprioAbstract ct) qs) =
     word_of_int (sum_list (map ds qs))"
    by (simp add: dataSize_foldl i)
  have c: "cov_type (foldl (addQuantity ds os) g' qs') = cov_type g'" for g' qs'
    by (induction qs' arbitrary: g') (simp_all add: addQuantity_def)
  have e: "ds qPos = 3 \<and> ds qOriQuat = 4 \<longrightarrow>
      dataSize (foldl (addQuantity ds os) (HardwareSensorProprioAbstract ctFull) [qPos, qOriQuat]) = 7 \<and>
      readingSize (foldl (addQuantity ds os) (HardwareSensorProprioAbstract ctFull) [qPos, qOriQuat])
        = 36"
    by (simp add: readingSize_def dataSize_def addQuantity_def HardwareSensorProprioAbstract_def
        clearQuantities_def)
  show ?thesis using w n s e by blast
qed

theorem readingSize_formula_witness:
  "unat (dataSize (foldl (addQuantity example_sizes example_sizes)
           (HardwareSensorProprioAbstract ctFull) [qPos, qOriQuat])) < 2 ^ 31 \<and>
   example_sizes qPos = 3 \<and> example_sizes qOriQuat = 4 \<and>
   cov_type (foldl (addQuantity example_sizes example_sizes)
           (HardwareSensorProprioAbstract ctFull) [qPos, qOriQuat]) = ctFull \<and>
   dataSize (foldl (addQuantity example_sizes example_sizes)
           (HardwareSensorProprioAbstract ctFull) [qPos, qOriQuat]) = 7 \<and>
   unat (readingSize (foldl (addQuantity example_sizes example_sizes)
           (HardwareSensorProprioAbstract ctFull) [qPos, qOriQuat])) = 36 \<and>
   cov_type (foldl (addQuantity example_sizes example_sizes)
           (HardwareSensorProprioAbstract ctVar) [qPos, qOriQuat]) = ctVar \<and>
   readingSize (foldl (addQuantity example_sizes example_sizes)
           (HardwareSensorProprioAbstract ctVar) [qPos, qOriQuat]) = 15 \<and>
   cov_type (foldl (addQuantity example_sizes example_sizes)
           (HardwareSensorProprioAbstract ctNone) [qPos, qOriQuat]) = ctNone \<and>
   readingSize (foldl (addQuantity example_sizes example_sizes)
           (HardwareSensorProprioAbstract ctNone) [qPos, qOriQuat]) = 8"
proof -
  define gF where "gF = foldl (addQuantity example_sizes example_sizes)
           (HardwareSensorProprioAbstract ctFull) [qPos, qOriQuat]"
  define gV where "gV = foldl (addQuantity example_sizes example_sizes)
           (HardwareSensorProprioAbstract ctVar) [qPos, qOriQuat]"
  define gN where "gN = foldl (addQuantity example_sizes example_sizes)
           (HardwareSensorProprioAbstract ctNone) [qPos, qOriQuat]"
  have t: "example_sizes qPos = 3 \<and> example_sizes qOriQuat = 4"
    by (simp add: example_sizes_def)
  have c: "cov_type gF = ctFull" "cov_type gV = ctVar" "cov_type gN = ctNone"
    by (simp_all add: gF_def gV_def gN_def addQuantity_def HardwareSensorProprioAbstract_def
        clearQuantities_def)
  have d: "dataSize gF = 7" "dataSize gV = 7" "dataSize gN = 7"
    by (simp_all add: gF_def gV_def gN_def dataSize_def addQuantity_def
        HardwareSensorProprioAbstract_def clearQuantities_def example_sizes_def)
  have b: "unat (dataSize gF) < 2 ^ 31" using d(1) by simp
  have "unat (readingSize gF) =
          (case cov_type gF of
             ctNone \<Rightarrow> 1 + unat (dataSize gF)
           | ctVar \<Rightarrow> 1 + 2 * unat (dataSize gF)
           | ctFull \<Rightarrow> 1 + unat (dataSize gF) * (unat (dataSize gF) + 3) div 2)"
    using readingSize_formula [of gF example_sizes example_sizes ctFull "[qPos, qOriQuat]"] b
    by blast
  then have rf: "unat (readingSize gF) = 36" using c(1) d(1) by simp
  have "readingSize gV = 1 + 2 * dataSize gV"
    using readingSize_formula [of gV example_sizes example_sizes ctVar "[qPos, qOriQuat]"] c(2)
    by blast
  then have rv: "readingSize gV = 15" using d(2) by simp
  have "readingSize gN = 1 + dataSize gN"
    using readingSize_formula [of gN example_sizes example_sizes ctNone "[qPos, qOriQuat]"] c(3)
    by blast
  then have rn: "readingSize gN = 8" using d(3) by simp
  show ?thesis
    using t b c d(1) rf rv rn unfolding gF_def gV_def gN_def by blast
qed

section \<open>The dichotomy of \<open>getRaws\<close>\<close>

text \<open>
  On the logical indices of a well-formed ring the truncating division and remainder
  are the usual ones. The loop always leaves, with an index of its range or with the
  overflow of a sum; while twice the right end is a value of \<open>int\<close> no sum overflows,
  and the loop finds the first index at or after the bound whenever the test is
  monotone over the range.
\<close>

lemma sdiv_half: "0 \<le> (a::int) \<Longrightarrow> a sdiv 2 = a div 2"
  by (simp add: signed_divide_int_def sgn_if)

lemma smod_ring: "0 \<le> (a::int) \<Longrightarrow> 0 < n \<Longrightarrow> a smod n = a mod n"
  by (simp add: smod_mod_positive)

lemma dichotomy_stop: "dichotomy buf n t l l = Some (Inr l)"
  by (subst dichotomy.simps) simp

lemma dichotomy_unfold:
  assumes "0 < n" and "int (length buf) = n" and "0 \<le> l" and "l < r"
  shows "dichotomy buf n t l r =
           (if \<not> int_ok (l + r) then Some (Inl INT_OVERFLOW)
            else if t \<le> timestamp (buf ! nat (((l + r) div 2) mod n))
            then dichotomy buf n t l ((l + r) div 2)
            else if int_ok ((l + r) div 2 + 1) then dichotomy buf n t ((l + r) div 2 + 1) r
            else Some (Inl INT_OVERFLOW))"
proof -
  have a: "(l + r) sdiv 2 = (l + r) div 2" using assms by (simp add: sdiv_half)
  have "0 \<le> (l + r) div 2" using assms by simp
  then have b: "((l + r) div 2) smod n = ((l + r) div 2) mod n"
    using assms(1) by (simp add: smod_ring)
  have c: "0 \<le> ((l + r) div 2) mod n" "((l + r) div 2) mod n < int (length buf)"
    using assms(1,2) by simp_all
  show ?thesis
    using assms(4) a b c by (subst dichotomy.simps) (simp add: Let_def)
qed

lemma dichotomy_step:
  assumes "0 < n" and "int (length buf) = n" and "0 \<le> l" and "l < r" and "2 * r \<le> INT_MAX"
  shows "dichotomy buf n t l r =
           (if t \<le> timestamp (buf ! nat (((l + r) div 2) mod n))
            then dichotomy buf n t l ((l + r) div 2)
            else dichotomy buf n t ((l + r) div 2 + 1) r)"
proof -
  have "int_ok (l + r)" "int_ok ((l + r) div 2 + 1)"
    using assms(3,4,5) by (simp_all add: int_ok_def INT_MAX_def)
  then show ?thesis unfolding dichotomy_unfold [OF assms(1-4)] by simp
qed


lemma dichotomy_finds:
  assumes "0 < n" and "int (length buf) = n" and "0 \<le> l" and "l \<le> p" and "p \<le> r"
    and "\<forall>k. l \<le> k \<and> k < p \<longrightarrow> timestamp (buf ! nat (k mod n)) < t"
    and "\<forall>k. p \<le> k \<and> k < r \<longrightarrow> t \<le> timestamp (buf ! nat (k mod n))"
    and "2 * r \<le> INT_MAX"
  shows "dichotomy buf n t l r = Some (Inr p)"
  using assms(3-8)
proof (induction "nat (r - l)" arbitrary: l r rule: less_induct)
  case less
  show ?case
  proof (cases "l = r")
    case True
    then show ?thesis using less.prems by (simp add: dichotomy_stop)
  next
    case False
    then have lr: "l < r" using less.prems by simp
    let ?j = "(l + r) div 2"
    have j: "l \<le> ?j" "?j < r" using lr by simp_all
    note st = dichotomy_step [OF assms(1,2) less.prems(1) lr less.prems(6), of t]
    show ?thesis
    proof (cases "?j < p")
      case True
      then have "timestamp (buf ! nat (?j mod n)) < t" using less.prems(4) j by simp
      then have "dichotomy buf n t l r = dichotomy buf n t (?j + 1) r" using st by simp
      moreover have "dichotomy buf n t (?j + 1) r = Some (Inr p)"
        using j less.prems True by (intro less.hyps) simp_all
      ultimately show ?thesis by simp
    next
      case False
      then have "t \<le> timestamp (buf ! nat (?j mod n))" using less.prems(5) j by simp
      then have "dichotomy buf n t l r = dichotomy buf n t l ?j" using st by simp
      moreover have "dichotomy buf n t l ?j = Some (Inr p)"
        using j less.prems False by (intro less.hyps) simp_all
      ultimately show ?thesis by simp
    qed
  qed
qed

section \<open>\<open>getRaws\<close> after the first search\<close>

lemma pred_smod: "0 \<le> x \<Longrightarrow> x < n \<Longrightarrow> (x - 1 + n) smod n = (x - 1) mod (n::int)"
proof -
  assume a: "0 \<le> x" "x < n"
  then have "0 \<le> x - 1 + n" "0 < n" by simp_all
  then have "(x - 1 + n) smod n = (x - 1 + n) mod n" by (simp add: smod_ring)
  then show ?thesis by simp
qed

text \<open>What \<open>getRaws\<close> does once the first search has returned the logical index \<open>v\<close>.\<close>

lemma getRaws_after:
  assumes "t1 \<le> t2" and "sized s" and "0 < bufferSize s" and "int_ok (write_pos s + bufferSize s)"
    and "dichotomy (buffer s) (bufferSize s) t1 (write_pos s) (write_pos s + bufferSize s - 1)
           = Some (Inr v)"
    and "0 \<le> v"
    and "i = v mod bufferSize s"
    and "i1 = (if t1 \<le> - 0.1 then i else (i - 1) mod bufferSize s)"
  shows "getRaws s t1 t2 rel =
     (if \<not> int_ok (i - 1 + bufferSize s) then Some (Inl (INT_OVERFLOW, s))
      else if timestamp (buffer s ! nat i) < t1 \<and> timestamp (buffer s ! nat i1) < 0
      then Some (Inr (s, []))
      else if i = write_pos s \<and> t1 > 0 then Some (Inl (BUFFER_OVERFLOW, s))
      else if timestamp (buffer s ! nat i) < t1 then Some (getRaws_view s rel i1 i1)
      else (case dichotomy (buffer s) (bufferSize s) t2 v (write_pos s + bufferSize s - 1) of
              None \<Rightarrow> None
            | Some (Inl e) \<Rightarrow> Some (Inl (e, s))
            | Some (Inr v2) \<Rightarrow> Some (getRaws_view s rel i1 (v2 smod bufferSize s))))"
proof -
  let ?n = "bufferSize s"
  have l: "int (length (buffer s)) = ?n" using assms(2) by (simp add: sized_def)
  have vi: "v smod ?n = i" using assms(3,6,7) by (simp add: smod_ring)
  have ir: "0 \<le> i" "i < ?n" using assms(3,7) by simp_all
  have e1: "(if t1 \<le> - 0.1 then i else (i - 1 + ?n) smod ?n) = i1"
    using assms(8) pred_smod [OF ir] by simp
  have i1r: "0 \<le> i1" "i1 < ?n" using assms(3,8) ir by (simp_all split: if_splits)
  have s0: "slot (buffer s) i = Inr (buffer s ! nat i)"
    using ir l by (simp add: slot_in_range)
  have s1: "slot (buffer s) i1 = Inr (buffer s ! nat i1)"
    using i1r l by (simp add: slot_in_range)
  have u: "getRaws s t1 t2 rel =
     (if \<not> int_ok (i - 1 + ?n) then Some (Inl (INT_OVERFLOW, s))
      else case (if timestamp (buffer s ! nat i) < t1 then slot (buffer s) i1
            else Inr (buffer s ! nat i)) of
        Inl e \<Rightarrow> Some (Inl (e, s))
      | Inr x1 \<Rightarrow>
          if timestamp (buffer s ! nat i) < t1 \<and> timestamp x1 < 0 then Some (Inr (s, []))
          else if i = write_pos s \<and> t1 > 0 then Some (Inl (BUFFER_OVERFLOW, s))
          else if timestamp (buffer s ! nat i) < t1 then Some (getRaws_view s rel i1 i1)
          else (case dichotomy (buffer s) (bufferSize s) t2 v (write_pos s + bufferSize s - 1) of
              None \<Rightarrow> None
            | Some (Inl e) \<Rightarrow> Some (Inl (e, s))
            | Some (Inr v2) \<Rightarrow> Some (getRaws_view s rel i1 (v2 smod bufferSize s))))"
    using assms(1,4,5)
    apply (simp only: getRaws_def Let_def)
    apply (simp only: simp_thms if_False if_True option.case sum.case)
    apply (simp only: vi e1)
    apply (simp add: s0 split del: if_split cong del: if_weak_cong)
    done
  show ?thesis
  proof (cases "timestamp (buffer s ! nat i) < t1")
    case True
    then show ?thesis unfolding u by (simp add: s1 split del: if_split cong del: if_weak_cong)
  next
    case False
    then show ?thesis unfolding u by (simp split del: if_split cong del: if_weak_cong)
  qed
qed



section \<open>The positions stay inside the ring\<close>

lemma sint_positive:
  assumes "0 < sint (n :: 32 word)"
  shows "sint n = uint n" and "int (unat n) = sint n" and "sint n \<le> INT_MAX"
proof -
  have b: "uint n < 2 ^ 31"
  proof (rule ccontr)
    assume "\<not> uint n < 2 ^ 31"
    then have "2 ^ 31 \<le> uint n" by simp
    then have "signed_take_bit 31 (uint n) \<le> uint n - 2 ^ Suc 31"
      by (rule signed_take_bit_int_less_eq)
    then have x: "signed_take_bit 31 (uint n) \<le> uint n - 4294967296" by simp
    have y: "uint n < 4294967296" using uint_bounded [of n] by simp
    have z: "sint n = signed_take_bit 31 (uint n)" by (simp add: sint_uint)
    show False using assms x y z by linarith
  qed
  have c: "uint n < 2147483648" using b by simp
  have d: "(2147483648 :: int) \<le> INT_MAX + 1" by (simp add: INT_MAX_def)
  have "- (2 ^ 31) \<le> uint n" by (simp add: order_trans [of _ 0])
  then have "signed_take_bit 31 (uint n) = uint n"
    using b by (rule signed_take_bit_int_eq_self)
  then show e: "sint n = uint n" by (simp add: sint_uint)
  show "int (unat n) = sint n" unfolding e by simp
  show "sint n \<le> INT_MAX" using e c d by linarith
qed















section \<open>Occupancy\<close>





















section \<open>Pre-loaded rings\<close>

text \<open>
  After \<open>initData\<close> and pushes of \<open>xs\<close>, fewer than the capacity, slot \<open>k\<close> holds
  \<open>xs ! k\<close> for \<open>k < length xs\<close> and the no-data mark beyond; the write position is
  \<open>length xs\<close>.
\<close>

lemma fold_mark_replicate:
  "k \<le> m \<Longrightarrow>
   fold (\<lambda>i b. b[i := f (b ! i)]) [0..<k] (replicate m x) = replicate k (f x) @ replicate (m - k) x"
proof (induction k)
  case 0
  then show ?case by simp
next
  case (Suc k)
  then have k: "k < m" by simp
  have r: "replicate (m - k) x = x # replicate (m - Suc k) x"
    using k by (cases "m - k") (simp_all add: Suc_diff_Suc)
  have "fold (\<lambda>i b. b[i := f (b ! i)]) [0..<Suc k] (replicate m x) =
          (replicate k (f x) @ replicate (m - k) x)
            [k := f ((replicate k (f x) @ replicate (m - k) x) ! k)]"
    using Suc by simp
  also have "\<dots> = replicate k (f x) @ (f x # replicate (m - Suc k) x)"
    by (simp add: r list_update_append nth_append)
  also have "\<dots> = replicate (Suc k) (f x) @ replicate (m - Suc k) x"
    by (simp add: replicate_append_same)
  finally show ?case .
qed

lemma initData_constructed:
  assumes "0 < sint n"
  shows "initData rs (HardwareSensorAbstract n raw0 lsp dp ad) =
           (HardwareSensorAbstract n raw0 lsp dp ad)
             \<lparr>buffer := replicate (unat n) (raw0\<lparr>timestamp := - 99, content := rs (content raw0)\<rparr>)\<rparr>"
proof -
  have "nat (sint n) = unat n" using sint_positive(2) [OF assms] by linarith
  then show ?thesis
    using fold_mark_replicate [of "unat n" "unat n"
        "\<lambda>r. r\<lparr>timestamp := - 99, content := rs (content r)\<rparr>" raw0]
    by (simp add: initData_def HardwareSensorAbstract_def)
qed

lemma push_all_preload:
  assumes "read_pos s = 0" and "0 \<le> write_pos s"
    and "write_pos s + int (length xs) < bufferSize s"
    and "int (length (buffer s)) = bufferSize s"
    and "\<not> buffer_full s"
  shows "push_all s xs =
           s\<lparr>write_pos := write_pos s + int (length xs),
             data_count := data_count s + int (length xs),
             buffer := take (nat (write_pos s)) (buffer s) @ xs @
                         drop (nat (write_pos s) + length xs) (buffer s)\<rparr>"
  using assms
proof (induction xs arbitrary: s)
  case Nil
  then show ?case by simp
next
  case (Cons x xs)
  let ?w = "write_pos s"
  let ?s1 = "incWritePos (s\<lparr>buffer := (buffer s)[nat ?w := x]\<rparr>)"
  have wl: "?w < int (length (buffer s))" "?w + 1 < bufferSize s" "0 < ?w + 1"
    using Cons.prems by simp_all
  have nf: "\<not> isFull s" using Cons.prems wl by (auto simp add: isFull_def)
  have p: "push s x = Inr (?s1, ())"
    using nf Cons.prems(2) wl(1) by (simp add: push_def getWritePos_def)
  have s1: "?s1 = s\<lparr>buffer := (buffer s)[nat ?w := x], write_pos := ?w + 1,
                    data_count := data_count s + 1\<rparr>"
    using wl Cons.prems(1) by (simp add: incWritePos_def Let_def)
  have f: "read_pos ?s1 = 0" "0 \<le> write_pos ?s1"
    "write_pos ?s1 + int (length xs) < bufferSize ?s1"
    "int (length (buffer ?s1)) = bufferSize ?s1" "\<not> buffer_full ?s1"
    unfolding s1 using Cons.prems by simp_all
  have nw: "nat (?w + 1) = Suc (nat ?w)" using Cons.prems(2) by simp
  have lw: "nat ?w < length (buffer s)" using wl(1) Cons.prems(2) by simp
  have t: "take (Suc (nat ?w)) ((buffer s)[nat ?w := x]) = take (nat ?w) (buffer s) @ [x]"
    using lw by (simp add: take_Suc_conv_app_nth)
  have d: "drop (Suc (nat ?w) + length xs) ((buffer s)[nat ?w := x]) =
           drop (nat ?w + length (x # xs)) (buffer s)"
    by simp
  have "push_all s (x # xs) = push_all ?s1 xs" using p by simp
  also have "\<dots> = ?s1\<lparr>write_pos := write_pos ?s1 + int (length xs),
             data_count := data_count ?s1 + int (length xs),
             buffer := take (nat (write_pos ?s1)) (buffer ?s1) @ xs @
                         drop (nat (write_pos ?s1) + length xs) (buffer ?s1)\<rparr>"
    using f by (rule Cons.IH)
  also have "\<dots> = s\<lparr>write_pos := ?w + int (length (x # xs)),
             data_count := data_count s + int (length (x # xs)),
             buffer := take (nat ?w) (buffer s) @ (x # xs) @
                         drop (nat ?w + length (x # xs)) (buffer s)\<rparr>"
    unfolding s1 by (simp add: nw t d)
  finally show ?case .
qed

lemma preloaded_state:
  assumes "0 < sint n" and "int (length xs) < sint n"
  shows "preloaded n raw0 rs lsp dp ad xs =
     (HardwareSensorAbstract n raw0 lsp dp ad)
       \<lparr>write_pos := int (length xs), data_count := int (length xs),
        buffer := xs @ replicate (unat n - length xs)
                         (raw0\<lparr>timestamp := - 99, content := rs (content raw0)\<rparr>)\<rparr>"
proof -
  let ?nd = "raw0\<lparr>timestamp := - 99, content := rs (content raw0)\<rparr>"
  let ?s0 = "(HardwareSensorAbstract n raw0 lsp dp ad)\<lparr>buffer := replicate (unat n) ?nd\<rparr>"
  have u: "int (unat n) = sint n" using sint_positive(2) [OF assms(1)] .
  have f: "read_pos ?s0 = 0" "0 \<le> write_pos ?s0" "write_pos ?s0 + int (length xs) < bufferSize ?s0"
    "int (length (buffer ?s0)) = bufferSize ?s0" "\<not> buffer_full ?s0"
    using assms(2) u by (simp_all add: HardwareSensorAbstract_def)
  have "preloaded n raw0 rs lsp dp ad xs = push_all ?s0 xs"
    by (simp add: preloaded_def initData_constructed [OF assms(1)])
  also have "\<dots> = ?s0\<lparr>write_pos := write_pos ?s0 + int (length xs),
             data_count := data_count ?s0 + int (length xs),
             buffer := take (nat (write_pos ?s0)) (buffer ?s0) @ xs @
                         drop (nat (write_pos ?s0) + length xs) (buffer ?s0)\<rparr>"
    using f by (rule push_all_preload)
  also have "\<dots> = (HardwareSensorAbstract n raw0 lsp dp ad)
       \<lparr>write_pos := int (length xs), data_count := int (length xs),
        buffer := xs @ replicate (unat n - length xs) ?nd\<rparr>"
    by (simp add: HardwareSensorAbstract_def)
  finally show ?thesis .
qed

text \<open>The two large rings: their sums leave the range of \<open>int\<close>.\<close>

lemma big_ring_state:
  "write_pos big_ring = 1073741824 \<and> bufferSize big_ring = 1073741825"
proof -
  have a: "0 < sint (1073741825 :: 32 word)" by simp
  have b: "int (length big_readings) < sint (1073741825 :: 32 word)"
    by (simp add: big_readings_def)
  show ?thesis
    unfolding big_ring_def preloaded_state [OF a b]
    by (simp add: HardwareSensorAbstract_def big_readings_def)
qed

lemma big_wrapped_state:
  "write_pos big_wrapped = 1 \<and> bufferSize big_wrapped = 2147483647 \<and>
   read_pos big_wrapped = 2 \<and>
   buffer big_wrapped = replicate 2147483647 (reading 1 1.5)"
proof -
  let ?r = "reading 1 1.5"
  have a: "0 < sint (2147483647 :: 32 word)" by simp
  have b: "int (length (replicate 2147483646 ?r)) < sint (2147483647 :: 32 word)" by simp
  have u: "unat (2147483647 :: 32 word) - 2147483646 = 1" by simp
  have m: "(replicate 2147483646 r @ [x])[2147483646 := r] = replicate 2147483647 r"
    for x r :: "unit raw"
  proof -
    have "(replicate 2147483646 r @ [x])[length (replicate 2147483646 r) := r]
            = replicate 2147483646 r @ [r]"
      by (rule list_update_length)
    also have "\<dots> = replicate (Suc 2147483646) r"
      by (simp only: replicate_Suc replicate_append_same)
    finally show ?thesis by simp
  qed
  have z: "(replicate 2147483647 r)[0 := r] = replicate 2147483647 r" for r :: "unit raw"
    by (rule list_update_same_conv [THEN iffD2]) simp_all
  show ?thesis
    unfolding big_wrapped_def preloaded_state [OF a b] u
    by (simp add: HardwareSensorAbstract_def release_def push_def getWritePos_def isFull_def
        incWritePos_def state_of_def Let_def m z)
qed

lemma getRaws_int_overflow:
  assumes "t1 \<le> t2" and "\<not> int_ok (write_pos s + bufferSize s)"
  shows "getRaws s t1 t2 rel = Some (Inl (INT_OVERFLOW, s))"
  using assms by (simp add: getRaws_def)

section \<open>Overflow errors\<close>

lemma searchable_sums:
  assumes "positions_ok s" and "searchable s"
  shows "int_ok (write_pos s + bufferSize s)" and "2 * (write_pos s + bufferSize s - 1) \<le> INT_MAX"
    and "0 \<le> i \<Longrightarrow> i < bufferSize s \<Longrightarrow> int_ok (i - 1 + bufferSize s)"
  using assms by (simp_all add: positions_ok_def searchable_def int_ok_def INT_MAX_def)

lemma sized_length: "sized s \<Longrightarrow> length (buffer s) = nat (bufferSize s)"
  unfolding sized_def by linarith

lemma ring_order_nth:
  assumes "positions_ok s" and "sized s" and "0 \<le> j" and "j < bufferSize s"
  shows "ring_order s ! nat j = buffer s ! nat ((write_pos s + j) mod bufferSize s)"
proof -
  let ?n = "bufferSize s"
  have w: "0 \<le> write_pos s" and n: "0 < ?n" using assms(1) by (simp_all add: positions_ok_def)
  have l: "length (buffer s) = nat ?n" using assms(2) by (rule sized_length)
  have "nat j < length (buffer s)" using assms(3,4) l by simp
  then have "ring_order s ! nat j = buffer s ! ((nat (write_pos s) + nat j) mod length (buffer s))"
    by (simp add: ring_order_def nth_rotate)
  moreover have "(nat (write_pos s) + nat j) mod nat ?n = nat ((write_pos s + j) mod ?n)"
    using w assms(3) n by (simp add: nat_mod_distrib nat_add_distrib)
  ultimately show ?thesis using l by simp
qed

lemma chronological_from_oldest:
  assumes "positions_ok s" and "sized s" and "chronological s" and "0 \<le> j" and "j < bufferSize s"
  shows "timestamp (buffer s ! nat (write_pos s))
           \<le> timestamp (buffer s ! nat ((write_pos s + j) mod bufferSize s))"
proof -
  let ?n = "bufferSize s"
  have w: "0 \<le> write_pos s" "write_pos s < ?n" using assms(1) by (simp_all add: positions_ok_def)
  have l: "length (ring_order s) = nat ?n" using sized_length [OF assms(2)] by (simp add: ring_order_def)
  have "map timestamp (ring_order s) ! 0 \<le> map timestamp (ring_order s) ! nat j"
    using assms(3,4,5) l unfolding chronological_def by (intro sorted_nth_mono) simp_all
  then have "timestamp (ring_order s ! nat 0) \<le> timestamp (ring_order s ! nat j)"
    using assms(4,5) l w by simp
  then show ?thesis
    using ring_order_nth [OF assms(1,2), of 0] ring_order_nth [OF assms(1,2,4,5)] w by simp
qed

lemma getRaws_overwritten:
  assumes "positions_ok s" and "sized s" and "chronological s" and "t1 \<le> t2" and "0 < t1"
    and "t1 \<le> timestamp (buffer s ! nat (write_pos s))" and "searchable s"
  shows "getRaws s t1 t2 rel = Some (Inl (BUFFER_OVERFLOW, s))"
proof -
  let ?n = "bufferSize s" and ?w = "write_pos s"
  have w: "0 \<le> ?w" "?w < ?n" and n: "0 < ?n" using assms(1) by (simp_all add: positions_ok_def)
  have l: "int (length (buffer s)) = ?n" using assms(2) by (simp add: sized_def)
  have late: "\<forall>k. ?w \<le> k \<and> k < ?w + ?n - 1 \<longrightarrow> t1 \<le> timestamp (buffer s ! nat (k mod ?n))"
  proof (intro allI impI)
    fix k assume k: "?w \<le> k \<and> k < ?w + ?n - 1"
    then have "0 \<le> k - ?w" "k - ?w < ?n" by simp_all
    then have "timestamp (buffer s ! nat ?w) \<le> timestamp (buffer s ! nat ((?w + (k - ?w)) mod ?n))"
      by (rule chronological_from_oldest [OF assms(1,2,3)])
    then show "t1 \<le> timestamp (buffer s ! nat (k mod ?n))" using assms(6) by simp
  qed
  have d: "dichotomy (buffer s) ?n t1 ?w (?w + ?n - 1) = Some (Inr ?w)"
    using n late searchable_sums(2) [OF assms(1,7)]
    by (intro dichotomy_finds [OF n l w(1)]) simp_all
  have i: "?w = ?w mod ?n" using w by simp
  have o: "int_ok (?w - 1 + ?n)" using searchable_sums(3) [OF assms(1,7) w] .
  show ?thesis
    unfolding getRaws_after [OF assms(4,2) n searchable_sums(1) [OF assms(1,7)] d w(1) i refl]
    using assms(5,6) o by simp
qed

text \<open>
  C2, as the code has it. Asking for the write position of a full buffer (and so a
  push) throws the error \<open>GENERIC_ERROR\<close>; \<open>getRaws(t1, t2)\<close> on a chronological ring
  of at most \<open>2^29 - 1\<close> slots, with \<open>0 < t1 \<le> t2\<close> and \<open>t1\<close> not after the timestamp held
  by the slot at the write position, the next one to be overwritten, throws
  \<open>BUFFER_OVERFLOW\<close>. Both leave the state as it was.
\<close>

theorem overflow_errors:
  "(isFull s \<longrightarrow> getWritePos s = Inl (GENERIC_ERROR, s) \<and> push s x = Inl (GENERIC_ERROR, s)) \<and>
   (positions_ok s \<and> sized s \<and> searchable s \<and> chronological s \<and> t1 \<le> t2 \<and> 0 < t1 \<and>
    t1 \<le> timestamp (buffer s ! nat (write_pos s)) \<longrightarrow>
      getRaws s t1 t2 rel = Some (Inl (BUFFER_OVERFLOW, s)))"
proof -
  have a: "isFull s \<longrightarrow> getWritePos s = Inl (GENERIC_ERROR, s) \<and> push s x = Inl (GENERIC_ERROR, s)"
    by (simp add: getWritePos_def push_def)
  have b: "positions_ok s \<and> sized s \<and> searchable s \<and> chronological s \<and> t1 \<le> t2 \<and> 0 < t1 \<and>
    t1 \<le> timestamp (buffer s ! nat (write_pos s)) \<longrightarrow>
      getRaws s t1 t2 rel = Some (Inl (BUFFER_OVERFLOW, s))"
    using getRaws_overwritten [of s t1 t2 rel] by blast
  show ?thesis using a b by blast
qed

lemma full4_chronological: "chronological full4"
  by (simp add: chronological_def ring_order_def full4_state reading_def)

theorem overflow_errors_witness:
  "isFull full4 \<and> getWritePos full4 = Inl (GENERIC_ERROR, full4) \<and>
   push full4 (reading 5 5.5) = Inl (GENERIC_ERROR, full4) \<and>
   positions_ok full4 \<and> sized full4 \<and> searchable full4 \<and> chronological full4 \<and>
   (0.5 :: real) \<le> 10 \<and>
   (0 :: real) < 0.5 \<and> 0.5 \<le> timestamp (buffer full4 ! nat (write_pos full4)) \<and>
   getRaws full4 0.5 10 True = Some (Inl (BUFFER_OVERFLOW, full4))"
proof -
  have f: "isFull full4" by (simp add: isFull_def full4_state)
  have p: "positions_ok full4" by (simp add: positions_ok_def full4_state)
  have z: "sized full4" by (simp add: sized_def full4_state INT_MAX_def)
  have q: "searchable full4" by (simp add: searchable_def full4_state INT_MAX_def)
  have t: "0.5 \<le> timestamp (buffer full4 ! nat (write_pos full4))"
    by (simp add: full4_state reading_def)
  show ?thesis
    using overflow_errors [of full4 "reading 5 5.5" "0.5" 10 True] f p z q t full4_chronological
    by simp
qed

lemma big_wrapped_chronological: "chronological big_wrapped"
proof -
  have "ring_order big_wrapped = replicate 2147483647 (reading 1 1.5)"
    unfolding ring_order_def
    by (rule nth_equalityI) (simp_all add: big_wrapped_state nth_rotate)
  then show ?thesis by (simp add: chronological_def sorted_replicate)
qed

text \<open>
  C2 as stated names the error of a full buffer \<open>BUFFER_OVERFLOW\<close>; on the full example
  ring \<open>getWritePos\<close> throws another error. C2 as stated has \<open>getRaws\<close> throw whenever
  \<open>t1\<close> is not after the oldest retained reading; on the example ring after three
  pushes, whose oldest reading has timestamp 1 and whose slot at the write position
  was never written, \<open>getRaws(0.5, 10)\<close> throws nothing and returns the four slots.
  And C2 as stated has no bound on the ring: on the chronological ring of \<open>2^31 - 1\<close>
  slots, all of timestamp 1, whose write position has wrapped to slot 1, the sum
  \<open>write_pos + bufferSize\<close> of \<open>getRaws(0.5, 10)\<close> leaves the range of \<open>int\<close>. With
  \<open>t2\<close> before \<open>t1\<close>, as in \<open>getRaws(0.5, 0.2)\<close> on the full example ring, the assertion
  of \<open>getRaws\<close> fails first.
\<close>

theorem getWritePos_error_counterexample:
  "isFull full4 \<and> getWritePos full4 \<noteq> Inl (BUFFER_OVERFLOW, full4) \<and>
   map timestamp (ring_order part3) = [- 99, 1, 2, 3] \<and> (0 :: real) < 0.5 \<and>
   getRaws part3 0.5 10 False = Some (Inr (part3, [3, 0, 1, 2])) \<and>
   positions_ok big_wrapped \<and> sized big_wrapped \<and> chronological big_wrapped \<and>
   0.5 \<le> timestamp (buffer big_wrapped ! nat (write_pos big_wrapped)) \<and>
   \<not> searchable big_wrapped \<and>
   getRaws big_wrapped 0.5 10 False = Some (Inl (INT_OVERFLOW, big_wrapped)) \<and>
   getRaws full4 0.5 0.2 False = Some (Inl (ASSERTION_FAILED, full4))"
proof -
  have a: "isFull full4 \<and> getWritePos full4 \<noteq> Inl (BUFFER_OVERFLOW, full4)"
    by (simp add: isFull_def getWritePos_def full4_state)
  have b: "map timestamp (ring_order part3) = [- 99, 1, 2, 3]"
    by code_simp
  have c: "getRaws part3 0.5 10 False = Some (Inr (part3, [3, 0, 1, 2]))"
    by code_simp
  have d: "positions_ok big_wrapped" "sized big_wrapped" "\<not> searchable big_wrapped"
    by (simp_all add: positions_ok_def sized_def searchable_def big_wrapped_state INT_MAX_def)
  have e: "0.5 \<le> timestamp (buffer big_wrapped ! nat (write_pos big_wrapped))"
    by (simp add: big_wrapped_state reading_def)
  have f: "getRaws big_wrapped 0.5 10 False = Some (Inl (INT_OVERFLOW, big_wrapped))"
    by (rule getRaws_int_overflow) (simp_all add: big_wrapped_state int_ok_def INT_MAX_def)
  have g: "getRaws full4 0.5 0.2 False = Some (Inl (ASSERTION_FAILED, full4))"
    by (simp add: getRaws_def)
  show ?thesis using a b c d e f g big_wrapped_chronological by simp
qed

section \<open>Range reads along the ring order\<close>

text \<open>
  The ring order of a buffer is split into the slots \<open>old\<close> that come first, with
  timestamps below the lower bound (unfilled slots, or readings already released),
  and the readings \<open>xs\<close> after them. The dichotomy for a bound \<open>t\<close> passes \<open>old\<close> and
  the readings before \<open>t\<close>, and stops at the first reading at or after \<open>t\<close>.
\<close>

lemma ring_search:
  assumes "positions_ok s" and "sized s" and "searchable s"
    and "ring_order s = old @ xs"
    and "\<forall>x \<in> set old. timestamp x < t"
    and "q < length xs"
    and "\<forall>k<q. timestamp (xs ! k) < t"
    and "\<forall>k. q \<le> k \<and> k < length xs \<longrightarrow> t \<le> timestamp (xs ! k)"
    and "write_pos s \<le> l" and "l \<le> write_pos s + int (length old) + int q"
  shows "dichotomy (buffer s) (bufferSize s) t l (write_pos s + bufferSize s - 1)
           = Some (Inr (write_pos s + int (length old) + int q))"
proof -
  let ?n = "bufferSize s" and ?w = "write_pos s" and ?c = "length old"
  let ?p = "?w + int ?c + int q"
  have w: "0 \<le> ?w" "?w < ?n" and n: "0 < ?n" using assms(1) by (simp_all add: positions_ok_def)
  have l: "int (length (buffer s)) = ?n" using assms(2) by (simp add: sized_def)
  have "length (ring_order s) = length (buffer s)" by (simp add: ring_order_def)
  then have len: "int ?c + int (length xs) = ?n" using assms(4) l by simp
  have at: "buffer s ! nat (k mod ?n) = (old @ xs) ! nat (k - ?w)"
    if "?w \<le> k" and "k < ?w + ?n" for k
  proof -
    have "ring_order s ! nat (k - ?w) = buffer s ! nat ((?w + (k - ?w)) mod ?n)"
      using that by (intro ring_order_nth [OF assms(1,2)]) simp_all
    then show ?thesis using assms(4) by simp
  qed
  have lo: "\<forall>k. l \<le> k \<and> k < ?p \<longrightarrow> timestamp (buffer s ! nat (k mod ?n)) < t"
  proof (intro allI impI)
    fix k assume k: "l \<le> k \<and> k < ?p"
    have b: "?w \<le> k" "k < ?w + ?n" using k assms(9,6) len by linarith+
    show "timestamp (buffer s ! nat (k mod ?n)) < t"
    proof (cases "nat (k - ?w) < ?c")
      case True
      then have "(old @ xs) ! nat (k - ?w) \<in> set old" by (simp add: nth_append)
      then show ?thesis using assms(5) at [OF b] by simp
    next
      case False
      have "nat (k - ?w) - ?c < q" using False k b by linarith
      then have "timestamp (xs ! (nat (k - ?w) - ?c)) < t" using assms(7) by blast
      then show ?thesis using False at [OF b] by (simp add: nth_append)
    qed
  qed
  have hi: "\<forall>k. ?p \<le> k \<and> k < ?w + ?n - 1 \<longrightarrow> t \<le> timestamp (buffer s ! nat (k mod ?n))"
  proof (intro allI impI)
    fix k assume k: "?p \<le> k \<and> k < ?w + ?n - 1"
    have b: "?w \<le> k" "k < ?w + ?n" using k by linarith+
    have c: "\<not> nat (k - ?w) < ?c" using k by linarith
    have "q \<le> nat (k - ?w) - ?c \<and> nat (k - ?w) - ?c < length xs" using k len by linarith
    then have "t \<le> timestamp (xs ! (nat (k - ?w) - ?c))" using assms(8) by blast
    then show "t \<le> timestamp (buffer s ! nat (k mod ?n))"
      using c at [OF b] by (simp add: nth_append)
  qed
  have a: "0 \<le> l" using w assms(9) by linarith
  have e: "?p \<le> ?w + ?n - 1" using assms(6) len by linarith
  show ?thesis
    by (rule dichotomy_finds [OF n l a assms(10) e lo hi searchable_sums(2) [OF assms(1,3)]])
qed

lemma increasing_before:
  assumes "sorted_wrt (<) (map timestamp xs)" and "q < length xs"
  shows "\<forall>k<q. timestamp (xs ! k) < timestamp (xs ! q)"
proof (intro allI impI)
  fix k assume "k < q"
  then have "map timestamp xs ! k < map timestamp xs ! q"
    using assms by (intro sorted_wrt_nth_less) simp_all
  then show "timestamp (xs ! k) < timestamp (xs ! q)" using \<open>k < q\<close> assms(2) by simp
qed

lemma increasing_after:
  assumes "sorted_wrt (<) (map timestamp xs)"
  shows "\<forall>k. q \<le> k \<and> k < length xs \<longrightarrow> timestamp (xs ! q) \<le> timestamp (xs ! k)"
proof (intro allI impI)
  fix k assume k: "q \<le> k \<and> k < length xs"
  show "timestamp (xs ! q) \<le> timestamp (xs ! k)"
  proof (cases "q = k")
    case True
    then show ?thesis by simp
  next
    case False
    then have "q < k" using k by simp
    then have "timestamp (xs ! q) < timestamp (xs ! k)"
      using increasing_before [OF assms, of k] k by simp
    then show ?thesis by simp
  qed
qed

text \<open>
  The view between two places of the ring order lists the physical slots of the places
  between them, in ring order, also when it goes past the last slot.
\<close>

lemma upto_nth_shift:
  assumes "k < length [f..j]"
  shows "[f..j] ! k = f + int k"
proof -
  have "int k < j - f + 1" using assms by (simp add: length_upto)
  then show ?thesis by (intro nth_upto) simp
qed

lemma mod_second_lap: "n \<le> k \<Longrightarrow> k < 2 * n \<Longrightarrow> k mod n = k - (n::int)"
proof -
  assume a: "n \<le> k" "k < 2 * n"
  have "(k - n) mod n = k - n" using a by (intro mod_pos_pos_trivial) simp_all
  then show ?thesis by simp
qed

lemma view_ring:
  assumes "0 < n" and "int (length buf) = n" and "f \<le> j" and "j - f < n"
  shows "view_indices buf ((a + f) mod n) ((a + j) mod n) = map (\<lambda>k. (a + k) mod n) [f..j]"
proof (rule nth_equalityI)
  let ?x = "(a + f) mod n"
  let ?y = "?x + (j - f)"
  have x: "0 \<le> ?x" "?x < n" using assms(1) by simp_all
  have "?y mod n = ((a + f) + (j - f)) mod n" by (rule mod_add_left_eq)
  then have e: "(a + j) mod n = ?y mod n" by simp
  have small: "?y mod n = ?y" if "?y < n"
    using that x assms(3) by (intro mod_pos_pos_trivial) simp_all
  have large: "?y mod n = ?y - n" if "\<not> ?y < n"
    using that x assms(4) by (intro mod_second_lap) simp_all
  have v: "view_indices buf ?x ((a + j) mod n) =
             (if ?y < n then [?x..?y] else [?x..n - 1] @ [0..?y - n])"
    unfolding e using small large assms(2,3,4) x by (simp add: view_indices_def)
  show len: "length (view_indices buf ?x ((a + j) mod n)) = length (map (\<lambda>k. (a + k) mod n) [f..j])"
  proof (cases "?y < n")
    case True
    then show ?thesis unfolding v using assms(3) by (simp add: length_upto)
  next
    case False
    have "nat (n - ?x) + nat (?y - n + 1) = nat (j - f + 1)" using False x assms(3) by linarith
    then show ?thesis unfolding v using False by (simp add: length_upto)
  qed
  fix k assume "k < length (view_indices buf ?x ((a + j) mod n))"
  then have k: "k < length [f..j]" using len by simp
  then have kk: "int k \<le> j - f" by (simp add: length_upto)
  have "(?x + int k) mod n = ((a + f) + int k) mod n" by (rule mod_add_left_eq)
  then have r: "map (\<lambda>k. (a + k) mod n) [f..j] ! k = (?x + int k) mod n"
    using k by (simp add: upto_nth_shift add.assoc)
  have l: "view_indices buf ?x ((a + j) mod n) ! k = (?x + int k) mod n"
  proof (cases "?y < n")
    case True
    have "[?x..?y] ! k = ?x + int k" using kk by (intro nth_upto) simp
    moreover have "(?x + int k) mod n = ?x + int k"
      using True kk x by (intro mod_pos_pos_trivial) simp_all
    ultimately show ?thesis unfolding v using True by simp
  next
    case False
    show ?thesis
    proof (cases "?x + int k < n")
      case True
      have "k < length [?x..n - 1]" using True by (simp add: length_upto)
      then have "([?x..n - 1] @ [0..?y - n]) ! k = [?x..n - 1] ! k" by (simp add: nth_append)
      also have "\<dots> = ?x + int k" using True by (intro nth_upto) simp
      also have "\<dots> = (?x + int k) mod n"
        using True x by (intro mod_pos_pos_trivial [symmetric]) simp_all
      finally show ?thesis unfolding v using False by simp
    next
      case b: False
      have g: "\<not> k < length [?x..n - 1]" "length [?x..n - 1] = nat (n - ?x)"
        using b x by (simp_all add: length_upto)
      have "([?x..n - 1] @ [0..?y - n]) ! k = [0..?y - n] ! (k - nat (n - ?x))"
        using g by (simp add: nth_append)
      also have "\<dots> = 0 + int (k - nat (n - ?x))" using b kk x by (intro nth_upto) linarith
      also have "\<dots> = ?x + int k - n" using b x by linarith
      also have "\<dots> = (?x + int k) mod n"
        using b x kk assms(4) by (intro mod_second_lap [symmetric]) linarith+
      finally show ?thesis unfolding v using False by simp
    qed
  qed
  show "view_indices buf ?x ((a + j) mod n) ! k = map (\<lambda>k. (a + k) mod n) [f..j] ! k"
    unfolding l r ..
qed

lemma getRaws_ring_range:
  assumes "positions_ok s" and "sized s" and "searchable s"
    and "ring_order s = old @ xs" and "old \<noteq> []"
    and "sorted_wrt (<) (map timestamp xs)"
    and "\<forall>x \<in> set old. timestamp x < t1"
    and "i \<le> j" and "j < length xs"
    and "t1 \<le> timestamp (xs ! i)"
    and "\<forall>k<i. timestamp (xs ! k) < t1"
    and "f = (if t1 \<le> - 0.1 then int i else int i - 1)"
  shows "getRaws s t1 (timestamp (xs ! j)) rel =
     Some (Inr (if rel then s\<lparr>read_pos := ring_slot s (int (length old) + f)\<rparr> else s,
                map (\<lambda>k. ring_slot s (int (length old) + k)) [f..int j]))"
proof -
  let ?n = "bufferSize s" and ?w = "write_pos s" and ?c = "int (length old)"
  let ?t2 = "timestamp (xs ! j)"
  let ?v = "?w + ?c + int i"
  let ?ip = "?v mod ?n"
  have w: "0 \<le> ?w" "?w < ?n" and n: "0 < ?n" using assms(1) by (simp_all add: positions_ok_def)
  have l: "int (length (buffer s)) = ?n" using assms(2) by (simp add: sized_def)
  have "length (ring_order s) = length (buffer s)" by (simp add: ring_order_def)
  then have len: "?c + int (length xs) = ?n" using assms(4) l by simp
  have c: "1 \<le> ?c" using assms(5) by (cases old) simp_all
  have il: "i < length xs" using assms(8,9) by simp
  have ij: "timestamp (xs ! i) \<le> ?t2"
    using increasing_after [OF assms(6), of i] assms(8,9) by blast
  have t12: "t1 \<le> ?t2" using assms(10) ij by linarith
  have after1: "\<forall>k. i \<le> k \<and> k < length xs \<longrightarrow> t1 \<le> timestamp (xs ! k)"
    using increasing_after [OF assms(6), of i] assms(10) by fastforce
  have d1: "dichotomy (buffer s) ?n t1 ?w (?w + ?n - 1) = Some (Inr ?v)"
    by (rule ring_search [OF assms(1,2,3,4,7) il assms(11) after1]) simp_all
  have old2: "\<forall>x \<in> set old. timestamp x < ?t2" using assms(7) t12 by fastforce
  have d2: "dichotomy (buffer s) ?n ?t2 ?v (?w + ?n - 1) = Some (Inr (?w + ?c + int j))"
    by (rule ring_search [OF assms(1,2,3,4) old2 assms(9) increasing_before [OF assms(6,9)]
          increasing_after [OF assms(6)]]) (use assms(8) in simp_all)
  have v0: "0 \<le> ?v" using w by simp
  have ipr: "0 \<le> ?ip" "?ip < ?n" using n by simp_all
  have ok: "int_ok (?ip - 1 + ?n)" using searchable_sums(3) [OF assms(1,3) ipr] .
  have "ring_order s ! nat (?c + int i) = buffer s ! nat ((?w + (?c + int i)) mod ?n)"
    using len il by (intro ring_order_nth [OF assms(1,2)]) simp_all
  then have at: "buffer s ! nat ?ip = xs ! i"
    using assms(4) by (simp add: nth_append add.assoc nat_add_distrib)
  have nw: "?ip \<noteq> ?w"
  proof (cases "?v < ?n")
    case True
    then have "?ip = ?v" using v0 by simp
    then show ?thesis using c by simp
  next
    case False
    then have "?ip = ?v - ?n" using len il w by (intro mod_second_lap) simp_all
    then show ?thesis using len il by simp
  qed
  have "(?ip - 1) mod ?n = (?v - 1) mod ?n" by (rule mod_diff_left_eq)
  then have i1: "(if t1 \<le> - 0.1 then ?ip else (?ip - 1) mod ?n) = (?w + ?c + f) mod ?n"
    using assms(12) by (simp add: algebra_simps)
  have i2: "(?w + ?c + int j) smod ?n = (?w + ?c + int j) mod ?n"
    using w n by (intro smod_ring) simp_all
  have fj: "f \<le> int j" "int j - f < ?n" using assms(8,9,12) len c by (simp_all split: if_splits)
  have view: "view_indices (buffer s) ((?w + ?c + f) mod ?n) ((?w + ?c + int j) mod ?n)
                = map (\<lambda>k. (?w + ?c + k) mod ?n) [f..int j]"
    using n l fj by (rule view_ring)
  have g: "getRaws s t1 ?t2 rel =
             Some (getRaws_view s rel ((?w + ?c + f) mod ?n) ((?w + ?c + int j) mod ?n))"
    unfolding getRaws_after [OF t12 assms(2) n searchable_sums(1) [OF assms(1,3)] d1 v0 refl refl]
      i1 at d2
    using ok nw assms(10) by (simp add: i2)
  show ?thesis
    unfolding g getRaws_view_def view by (simp add: ring_slot_def add.assoc)
qed

lemma ring_range_content:
  assumes "positions_ok s" and "sized s"
    and "ring_order s = old @ xs" and "old \<noteq> []"
    and "sorted_wrt (<) (map timestamp xs)"
    and "\<forall>x \<in> set old. timestamp x < t1"
    and "i \<le> j" and "j < length xs"
    and "t1 \<le> timestamp (xs ! i)"
    and "f = int i \<or> f = int i - 1"
  shows "map (\<lambda>k. buffer s ! nat (ring_slot s (int (length old) + k))) [int i..int j]
           = take (Suc j - i) (drop i xs)"
    and "buffer s ! nat (ring_slot s (int (length old) + int i - 1))
           = (old @ xs) ! (length old + i - 1)"
    and "sorted (map (\<lambda>k. timestamp (buffer s ! nat k))
           (map (\<lambda>k. ring_slot s (int (length old) + k)) [f..int j]))"
proof -
  let ?n = "bufferSize s" and ?c = "int (length old)"
  let ?g = "\<lambda>k. timestamp (buffer s ! nat (ring_slot s (?c + k)))"
  have l: "int (length (buffer s)) = ?n" using assms(2) by (simp add: sized_def)
  have "length (ring_order s) = length (buffer s)" by (simp add: ring_order_def)
  then have len: "?c + int (length xs) = ?n" using assms(3) l by simp
  have c: "1 \<le> ?c" using assms(4) by (cases old) simp_all
  have cell: "buffer s ! nat (ring_slot s (?c + k)) = (old @ xs) ! nat (?c + k)"
    if "- ?c \<le> k" and "k < int (length xs)" for k
  proof -
    have "ring_order s ! nat (?c + k) = buffer s ! nat ((write_pos s + (?c + k)) mod ?n)"
      using that len by (intro ring_order_nth [OF assms(1,2)]) simp_all
    then show ?thesis using assms(3) by (simp add: ring_slot_def)
  qed
  have inx: "buffer s ! nat (ring_slot s (?c + int k)) = xs ! k" if "k < length xs" for k
  proof -
    have "nat (?c + int k) = length old + k" by simp
    then show ?thesis using cell [of "int k"] that by (simp add: nth_append)
  qed
  show "map (\<lambda>k. buffer s ! nat (ring_slot s (?c + k))) [int i..int j]
           = take (Suc j - i) (drop i xs)"
  proof (rule nth_equalityI)
    show "length (map (\<lambda>k. buffer s ! nat (ring_slot s (?c + k))) [int i..int j])
            = length (take (Suc j - i) (drop i xs))"
      using assms(7,8) by (simp add: length_upto)
    fix k assume "k < length (map (\<lambda>k. buffer s ! nat (ring_slot s (?c + k))) [int i..int j])"
    then have k: "k < length [int i..int j]" by simp
    then have kk: "i + k \<le> j" by (simp add: length_upto)
    have "map (\<lambda>k. buffer s ! nat (ring_slot s (?c + k))) [int i..int j] ! k
            = buffer s ! nat (ring_slot s (?c + int (i + k)))"
      using k by (simp add: upto_nth_shift)
    also have "\<dots> = xs ! (i + k)" using kk assms(8) by (intro inx) simp
    also have "\<dots> = take (Suc j - i) (drop i xs) ! k" using kk assms(8) by simp
    finally show "map (\<lambda>k. buffer s ! nat (ring_slot s (?c + k))) [int i..int j] ! k
            = take (Suc j - i) (drop i xs) ! k" .
  qed
  have "nat (?c + (int i - 1)) = length old + i - 1" using c by linarith
  then show "buffer s ! nat (ring_slot s (?c + int i - 1)) = (old @ xs) ! (length old + i - 1)"
    using cell [of "int i - 1"] c assms(7,8) by (simp add: add_diff_eq)
  have "sorted_wrt (\<le>) (map ?g [f..int j])"
  proof (rule sorted_wrt_map_mono [OF sorted_wrt_upto])
    fix x y assume x: "x \<in> set [f..int j]" and y: "y \<in> set [f..int j]" and xy: "x < y"
    have r: "f \<le> x" "y \<le> int j" using x y by simp_all
    have yr: "0 \<le> y" "nat y < length xs" using r xy assms(8,10) by linarith+
    have gy: "?g y = timestamp (xs ! nat y)" using inx [OF yr(2)] yr(1) by simp
    show "?g x \<le> ?g y"
    proof (cases "0 \<le> x")
      case True
      then have "nat x < nat y" using xy by linarith
      then have "timestamp (xs ! nat x) < timestamp (xs ! nat y)"
        using increasing_before [OF assms(5) yr(2)] by simp
      moreover have "?g x = timestamp (xs ! nat x)"
        using inx [of "nat x"] True xy yr by simp
      ultimately show ?thesis using gy by simp
    next
      case False
      then have x1: "x = - 1" "i = 0" using r assms(10) by linarith+
      have "nat (?c + x) < length old" using x1 c by linarith
      then have "(old @ xs) ! nat (?c + x) \<in> set old" by (simp add: nth_append)
      then have "timestamp ((old @ xs) ! nat (?c + x)) < t1" using assms(6) by blast
      moreover have "buffer s ! nat (ring_slot s (?c + x)) = (old @ xs) ! nat (?c + x)"
        using x1 c yr by (intro cell) simp_all
      moreover have "timestamp (xs ! i) \<le> timestamp (xs ! nat y)"
        using increasing_after [OF assms(5), of i] x1 yr by simp
      ultimately show ?thesis using gy assms(9) by simp
    qed
  qed
  then show "sorted (map (\<lambda>k. timestamp (buffer s ! nat k))
           (map (\<lambda>k. ring_slot s (?c + k)) [f..int j]))"
    by (simp add: o_def)
qed

lemma preloaded_ring_order:
  assumes "0 < sint n" and "int (length ys) < sint n"
  shows "ring_order (preloaded n raw0 rs lsp dp ad ys) =
           replicate (unat n - length ys) (raw0\<lparr>timestamp := - 99, content := rs (content raw0)\<rparr>)
             @ ys"
    and "positions_ok (preloaded n raw0 rs lsp dp ad ys)"
    and "sized (preloaded n raw0 rs lsp dp ad ys)"
proof -
  have u: "int (unat n) = sint n" and m: "sint n \<le> INT_MAX"
    using sint_positive(2,3) [OF assms(1)] by simp_all
  show "ring_order (preloaded n raw0 rs lsp dp ad ys) =
           replicate (unat n - length ys) (raw0\<lparr>timestamp := - 99, content := rs (content raw0)\<rparr>)
             @ ys"
    unfolding preloaded_state [OF assms] by (simp add: ring_order_def rotate_append)
  show "positions_ok (preloaded n raw0 rs lsp dp ad ys)"
    unfolding preloaded_state [OF assms] using assms
    by (simp add: positions_ok_def HardwareSensorAbstract_def)
  have "length ys + (unat n - length ys) = unat n" using assms(2) u by linarith
  then show "sized (preloaded n raw0 rs lsp dp ad ys)"
    unfolding preloaded_state [OF assms] using u m
    by (simp add: sized_def HardwareSensorAbstract_def)
qed

lemma wrapped4_state:
  "wrapped4 = \<lparr>write_pos = 1, read_pos = 0, buffer_full = False, read_pos_used = False,
    index = - 1, data_count = 5, last_sent_pos = 0, no_more_data = False,
    data_period = 1, arrival_delay = 0, bufferSize = 4,
    buffer = [reading 5 5.5, reading 2 2.5, reading 3 3.5, reading 4 4.5]\<rparr>"
  by code_simp

text \<open>
  C1, as the code has it. Take a ring of at most \<open>2^29 - 1\<close> slots whose ring order is
  the slots \<open>old\<close>, at least one, then the readings \<open>xs\<close> of strictly increasing
  timestamps \<open>t_0 < \<dots> < t_(n-1)\<close>; after \<open>initData\<close> and fewer pushes than the capacity,
  \<open>old\<close> is the unfilled slots, marked \<open>-99\<close>. Let \<open>t1\<close> be above the timestamps of \<open>old\<close>
  and \<open>t_i\<close> the first timestamp at or after \<open>t1\<close> (so \<open>t1 = t_i\<close> will do), and \<open>i \<le> j\<close>.
  Then \<open>getRaws(t1, t_j)\<close> returns exactly the slots of the places \<open>i-1, \<dots>, j\<close> of
  \<open>xs\<close> when \<open>t1 > -0.1\<close>, and of the places \<open>i, \<dots>, j\<close> when \<open>t1 \<le> -0.1\<close>, in ring order,
  which is chronological, also when the physical range goes past the last slot; the
  place before \<open>0\<close> is the last slot of \<open>old\<close>. With release, \<open>read_pos\<close> becomes the
  first slot returned. With capacity 4 and the pushed timestamps 1, 2, 3, 4,
  \<open>getRaws(2.5, 10, false)\<close> returns the slots 1, 2, 3, whose timestamps are 2, 3, 4.
\<close>

theorem range_correctness:
  assumes "positions_ok s" and "sized s" and "searchable s"
    and "ring_order s = old @ xs" and "old \<noteq> []"
    and "sorted_wrt (<) (map timestamp xs)"
    and "\<forall>x \<in> set old. timestamp x < t1"
    and "i \<le> j" and "j < length xs"
    and "t1 \<le> timestamp (xs ! i)"
    and "\<forall>k<i. timestamp (xs ! k) < t1"
  shows "getRaws s t1 (timestamp (xs ! j)) rel =
           Some (Inr (if rel
                      then s\<lparr>read_pos := ring_slot s (int (length old) +
                                           (if t1 \<le> - 0.1 then int i else int i - 1))\<rparr>
                      else s,
                      map (\<lambda>k. ring_slot s (int (length old) + k))
                        [(if t1 \<le> - 0.1 then int i else int i - 1)..int j])) \<and>
         map (\<lambda>k. buffer s ! nat (ring_slot s (int (length old) + k))) [int i..int j]
           = take (Suc j - i) (drop i xs) \<and>
         buffer s ! nat (ring_slot s (int (length old) + int i - 1))
           = (old @ xs) ! (length old + i - 1) \<and>
         sorted (map (\<lambda>k. timestamp (buffer s ! nat k))
           (map (\<lambda>k. ring_slot s (int (length old) + k))
              [(if t1 \<le> - 0.1 then int i else int i - 1)..int j])) \<and>
         (0 < sint n \<and> int (length ys) < sint n \<longrightarrow>
            ring_order (preloaded n raw0 rs lsp dp ad ys) =
              replicate (unat n - length ys)
                (raw0\<lparr>timestamp := - 99, content := rs (content raw0)\<rparr>) @ ys \<and>
            positions_ok (preloaded n raw0 rs lsp dp ad ys) \<and>
            sized (preloaded n raw0 rs lsp dp ad ys)) \<and>
         getRaws full4 2.5 10 False = Some (Inr (full4, [1, 2, 3])) \<and>
         map (\<lambda>k. timestamp (buffer full4 ! nat k)) [1, 2, 3] = [2, 3, 4]"
proof -
  let ?f = "if t1 \<le> - 0.1 then int i else int i - 1"
  have f: "?f = int i \<or> ?f = int i - 1" by simp
  have a: "getRaws s t1 (timestamp (xs ! j)) rel =
           Some (Inr (if rel then s\<lparr>read_pos := ring_slot s (int (length old) + ?f)\<rparr> else s,
                      map (\<lambda>k. ring_slot s (int (length old) + k)) [?f..int j]))"
    using assms refl by (rule getRaws_ring_range)
  note b = ring_range_content [OF assms(1,2,4,5,6,7,8,9,10) f]
  have c: "0 < sint n \<and> int (length ys) < sint n \<longrightarrow>
            ring_order (preloaded n raw0 rs lsp dp ad ys) =
              replicate (unat n - length ys)
                (raw0\<lparr>timestamp := - 99, content := rs (content raw0)\<rparr>) @ ys \<and>
            positions_ok (preloaded n raw0 rs lsp dp ad ys) \<and>
            sized (preloaded n raw0 rs lsp dp ad ys)"
    using preloaded_ring_order [of n ys raw0 rs lsp dp ad] by blast
  have d: "getRaws full4 2.5 10 False = Some (Inr (full4, [1, 2, 3]))"
    by code_simp
  have e: "map (\<lambda>k. timestamp (buffer full4 ! nat k)) [1, 2, 3] = [2, 3, 4]"
    by (simp add: full4_state reading_def)
  show ?thesis using a b c d e by blast
qed

theorem range_correctness_witness:
  "positions_ok wrapped4 \<and> sized wrapped4 \<and> searchable wrapped4 \<and>
   ring_order wrapped4 = [reading 2 2.5] @ [reading 3 3.5, reading 4 4.5, reading 5 5.5] \<and>
   [reading 2 2.5] \<noteq> [] \<and>
   sorted_wrt (<) (map timestamp [reading 3 3.5, reading 4 4.5, reading 5 5.5]) \<and>
   list_all (\<lambda>x. timestamp x < 4) [reading 2 2.5] \<and> (1 :: nat) \<le> 2 \<and>
   2 < length [reading 3 3.5, reading 4 4.5, reading 5 5.5] \<and>
   4 \<le> timestamp ([reading 3 3.5, reading 4 4.5, reading 5 5.5] ! 1) \<and>
   timestamp ([reading 3 3.5, reading 4 4.5, reading 5 5.5] ! 0) < 4 \<and>
   getRaws wrapped4 4 5 True = Some (Inr (wrapped4\<lparr>read_pos := 2\<rparr>, [2, 3, 0])) \<and>
   map (\<lambda>k. timestamp (buffer wrapped4 ! nat k)) [2, 3, 0] = [3, 4, 5] \<and>
   0 < sint (4 :: 32 word) \<and> int (length three_readings) < sint (4 :: 32 word) \<and>
   ring_order part3 = no_data\<lparr>timestamp := - 99\<rparr> # three_readings"
proof -
  let ?old = "[reading 2 2.5]" and ?xs = "[reading 3 3.5, reading 4 4.5, reading 5 5.5]"
  have ws: "write_pos wrapped4 = 1" "bufferSize wrapped4 = 4"
    by (simp_all add: wrapped4_state)
  have h1: "positions_ok wrapped4" by (simp add: positions_ok_def wrapped4_state)
  have h2: "sized wrapped4" by (simp add: sized_def wrapped4_state INT_MAX_def)
  have h3: "searchable wrapped4" by (simp add: searchable_def wrapped4_state INT_MAX_def)
  have h4: "ring_order wrapped4 = ?old @ ?xs" by code_simp
  have h5: "?old \<noteq> []" by simp
  have h6: "sorted_wrt (<) (map timestamp ?xs)" by (simp add: reading_def)
  have h7: "\<forall>x \<in> set ?old. timestamp x < 4" by (simp add: reading_def)
  have h8: "(1 :: nat) \<le> 2" by simp
  have h9: "2 < length ?xs" by simp
  have h10: "4 \<le> timestamp (?xs ! 1)" by (simp add: reading_def)
  have h11: "\<forall>k<1. timestamp (?xs ! k) < 4" by (simp add: reading_def)
  have p: "0 < sint (4 :: 32 word)" "int (length three_readings) < sint (4 :: 32 word)"
    by (simp_all add: three_readings_def)
  have t2: "timestamp (?xs ! 2) = 5" by (simp add: reading_def)
  have u: "[0..2] = [0, 1, 2 :: int]" by (simp add: upto.simps)
  have sl: "ring_slot wrapped4 1 = 2"
    "map (\<lambda>k. ring_slot wrapped4 (1 + k)) [0..2] = [2, 3, 0]"
    by (simp_all add: ring_slot_def ws u)
  have v: "map (\<lambda>k. timestamp (buffer wrapped4 ! nat k)) [2, 3, 0] = [3, 4, 5]"
    by (simp add: wrapped4_state reading_def)
  have r: "replicate (unat (4 :: 32 word) - length three_readings)
             (no_data\<lparr>timestamp := - 99, content := id (content no_data)\<rparr>)
           = [no_data\<lparr>timestamp := - 99\<rparr>]"
    by (simp add: three_readings_def no_data_def)
  note t = range_correctness [where s = wrapped4 and old = ?old and xs = ?xs and ?t1.0 = 4
        and i = 1 and j = 2 and rel = True and n = 4 and ys = three_readings
        and ?raw0.0 = no_data and rs = id and lsp = 0 and dp = 1 and ad = 0,
        OF h1 h2 h3 h4 h5 h6 h7 h8 h9 h10 h11, unfolded t2 r, folded part3_def]
  have g: "getRaws wrapped4 4 5 True = Some (Inr (wrapped4\<lparr>read_pos := 2\<rparr>, [2, 3, 0]))"
    using t [THEN conjunct1] by (simp add: sl)
  have o: "ring_order part3 = no_data\<lparr>timestamp := - 99\<rparr> # three_readings"
    using t p by simp
  have l: "list_all (\<lambda>x. timestamp x < 4) ?old" by (simp add: reading_def)
  show ?thesis using h1 h2 h3 h4 h6 h10 l g v o p by (simp add: reading_def)
qed

text \<open>
  C1 as stated takes any \<open>t1 \<le> -0.1\<close> for the from-start sentinel, has \<open>getRaws(t_i, t_j)\<close>
  return the slot before \<open>i\<close> whatever the timestamps, and has no bound on the ring.
  With three readings of timestamps 1, 2, 3 in a ring of four slots, \<open>getRaws(-100, 2)\<close>
  starts below the no-data mark of the unfilled slot 3 and returns the slots 3, 0, 1,
  not 0, 1. With three readings of timestamps -3, -2, -1 in a ring of four slots,
  \<open>getRaws(-2, -1)\<close> returns the slots 1, 2 without the slot 0 before them. With
  \<open>2^30\<close> readings of timestamps 0, 1, 2, \<dots> in a ring of \<open>2^30 + 1\<close> slots, the sum
  \<open>write_pos + bufferSize\<close> of \<open>getRaws(1, 2)\<close> leaves the range of \<open>int\<close>.
\<close>

theorem range_sentinel_counterexample:
  "(- 100 :: real) \<le> - 0.1 \<and>
   getRaws part3 (- 100) 2 False = Some (Inr (part3, [3, 0, 1])) \<and>
   map timestamp neg_readings = [- 3, - 2, - 1] \<and>
   getRaws (preloaded 4 no_data id 0 1 0 neg_readings) (- 2) (- 1) False =
     Some (Inr (preloaded 4 no_data id 0 1 0 neg_readings, [1, 2])) \<and>
   sorted_wrt (<) (map timestamp big_readings) \<and> length big_readings = 1073741824 \<and>
   bufferSize big_ring = 1073741825 \<and>
   timestamp (big_readings ! 1) = 1 \<and> timestamp (big_readings ! 2) = 2 \<and>
   getRaws big_ring 1 2 False = Some (Inl (INT_OVERFLOW, big_ring))"
proof -
  have a: "getRaws part3 (- 100) 2 False = Some (Inr (part3, [3, 0, 1]))"
    by code_simp
  have b: "map timestamp neg_readings = [- 3, - 2, - 1]"
    by (simp add: neg_readings_def reading_def)
  have c: "getRaws (preloaded 4 no_data id 0 1 0 neg_readings) (- 2) (- 1) False =
     Some (Inr (preloaded 4 no_data id 0 1 0 neg_readings, [1, 2]))"
    by code_simp
  have "sorted_wrt (<) (map (\<lambda>k. timestamp (stamped k)) [0..<1073741824])"
    by (rule sorted_wrt_map_mono [OF sorted_wrt_upt]) (simp add: stamped_def reading_def)
  then have d: "sorted_wrt (<) (map timestamp big_readings)"
    by (simp add: big_readings_def o_def)
  have e: "length big_readings = 1073741824" by (simp add: big_readings_def)
  have f: "timestamp (big_readings ! 1) = 1" "timestamp (big_readings ! 2) = 2"
    by (simp_all add: big_readings_def stamped_def reading_def)
  have g: "getRaws big_ring 1 2 False = Some (Inl (INT_OVERFLOW, big_ring))"
    by (rule getRaws_int_overflow) (simp_all add: big_ring_state int_ok_def INT_MAX_def)
  show ?thesis using a b c d e f g big_ring_state by simp
qed

end
